theory Spec2Isabelle
  imports Main "HOL-Library.Word" "HOL-Library.Sublist" "HOL-Library.Multiset"
begin

unbundle bit_operations_syntax

section \<open>Bytes, Python errors and the module constants\<close>

text \<open>
  A \<open>bytes\<close> or \<open>bytearray\<close> value is a list of 8-bit words. Offsets and lengths are
  natural numbers; Python integers that may become negative are \<open>int\<close>.
\<close>

type_synonym byte = "8 word"

datatype error = OverflowError | ValueError | UnicodeEncodeError

definition MDMD_SIGNATURE :: "byte list" where
  "MDMD_SIGNATURE = [0x4D, 0x44, 0x6D, 0x64]"

definition OFFSET_AFTER_PATTERN :: nat where
  "OFFSET_AFTER_PATTERN = 0x2A"

definition NAME_LEN :: nat where
  "NAME_LEN = 17"

definition HEADER_SIZE :: nat where
  "HEADER_SIZE = 122"

text \<open>\<open>FILES_TO_REMOVE = [b'PATCH.OFS', b'OBJECT.OFS']\<close>\<close>

definition FILES_TO_REMOVE :: "byte list list" where
  "FILES_TO_REMOVE =
     [[0x50, 0x41, 0x54, 0x43, 0x48, 0x2E, 0x4F, 0x46, 0x53],
      [0x4F, 0x42, 0x4A, 0x45, 0x43, 0x54, 0x2E, 0x4F, 0x46, 0x53]]"

section \<open>Python's sequence primitives\<close>

text \<open>
  \<open>find_sub sub xs\<close> is the lowest index at which \<open>sub\<close> occurs in \<open>xs\<close>, the
  result of \<open>xs.find(sub)\<close>, with \<open>None\<close> for Python's \<open>-1\<close>.
\<close>

fun find_sub :: "'a list \<Rightarrow> 'a list \<Rightarrow> nat option" where
  "find_sub sub [] = (if sub = [] then Some 0 else None)"
| "find_sub sub (x # xs) =
     (if prefix sub (x # xs) then Some 0 else map_option Suc (find_sub sub xs))"

text \<open>\<open>data.find(sub, start)\<close> for a start that is not negative.\<close>

definition py_find :: "'a list \<Rightarrow> 'a list \<Rightarrow> nat \<Rightarrow> nat option" where
  "py_find data sub start =
     (if length data < start then None
      else map_option (\<lambda>i. start + i) (find_sub sub (drop start data)))"

text \<open>\<open>sub in xs\<close> on bytes.\<close>

definition py_in :: "'a list \<Rightarrow> 'a list \<Rightarrow> bool" where
  "py_in sub xs = (find_sub sub xs \<noteq> None)"

text \<open>\<open>xs[s:e]\<close> and \<open>del xs[s:e]\<close> and \<open>xs[s:e] = ys\<close> for bounds that are not negative.\<close>

definition slice :: "'a list \<Rightarrow> nat \<Rightarrow> nat \<Rightarrow> 'a list" where
  "slice xs s e = take (e - s) (drop s xs)"

definition del_slice :: "'a list \<Rightarrow> nat \<Rightarrow> nat \<Rightarrow> 'a list" where
  "del_slice xs s e = (if s < e then take s xs @ drop e xs else xs)"

definition set_slice :: "'a list \<Rightarrow> nat \<Rightarrow> nat \<Rightarrow> 'a list \<Rightarrow> 'a list" where
  "set_slice xs s e ys = take s xs @ ys @ drop (max s e) xs"

text \<open>The signature \<open>sub\<close> occurs in \<open>data\<close> starting at offset \<open>i\<close>.\<close>

definition occurs_at :: "'a list \<Rightarrow> 'a list \<Rightarrow> nat \<Rightarrow> bool" where
  "occurs_at sub data i =
     (i + length sub \<le> length data \<and> take (length sub) (drop i data) = sub)"

section \<open>PatternScanner: \<open>find_all_mdmd_patterns\<close>\<close>

lemma find_sub_bound: "find_sub sub xs = Some i \<Longrightarrow> i \<le> length xs"
  by (induction xs arbitrary: i) (auto split: if_splits)

lemma py_find_ge: "py_find data sub start = Some i \<Longrightarrow> start \<le> i"
  by (auto simp: py_find_def split: if_splits)

text \<open>
  The \<open>while pos < len(data)\<close> loop; the list it returns is the list \<open>positions\<close>
  of the source, built front to back.
\<close>

function find_all_loop :: "byte list \<Rightarrow> nat \<Rightarrow> nat list" where
  "find_all_loop data pos =
     (if pos < length data then
        (case py_find data MDMD_SIGNATURE pos of
           None \<Rightarrow> []
         | Some index \<Rightarrow> index # find_all_loop data (index + 1))
      else [])"
  by pat_completeness auto
termination
  by (relation "measure (\<lambda>(data, pos). length data - pos)")
     (auto dest: py_find_ge)

declare find_all_loop.simps [simp del]

definition find_all_mdmd_patterns :: "byte list \<Rightarrow> nat list" where
  "find_all_mdmd_patterns data = find_all_loop data 0"

section \<open>BlockRemover: \<open>remove_files_from_archive\<close>\<close>

text \<open>
  \<open>bs.decode('ascii', errors='ignore')\<close>: the bytes below 128, in order. A decoded
  string is kept as the list of its code points.
\<close>

definition decode_ascii_ignore :: "byte list \<Rightarrow> byte list" where
  "decode_ascii_ignore bs = filter (\<lambda>b. b < 0x80) bs"

text \<open>
  The \<open>for i, pattern_pos in enumerate(pattern_positions)\<close> loop: the block that starts
  at a position ends at the next position, or at the end of the buffer for the last one.
  The inner loop over the signatures stops at the first one found in the block
  (\<open>break\<close>) and records \<open>(file_start, file_end, filename)\<close>.
\<close>

fun files_to_delete :: "byte list \<Rightarrow> nat list \<Rightarrow> byte list list \<Rightarrow> (nat \<times> nat \<times> byte list) list" where
  "files_to_delete data [] files_to_remove = []"
| "files_to_delete data (pattern_pos # rest) files_to_remove =
     (let file_start = pattern_pos;
          file_end = (case rest of [] \<Rightarrow> length data | next_pos # _ \<Rightarrow> next_pos);
          file_data = slice data file_start file_end
      in (case List.find (\<lambda>signature. py_in signature file_data) files_to_remove of
            None \<Rightarrow> []
          | Some signature \<Rightarrow> [(file_start, file_end, decode_ascii_ignore signature)])
         @ files_to_delete data rest files_to_remove)"

text \<open>
  \<open>files_to_delete.sort(key=lambda x: x[0], reverse=True)\<close>, a stable sort by
  descending start, followed by \<open>del cleaned_data[file_start:file_end]\<close> for each entry.
\<close>

definition delete_spans :: "byte list \<Rightarrow> (nat \<times> nat \<times> byte list) list \<Rightarrow> byte list" where
  "delete_spans data to_delete =
     fold (\<lambda>(file_start, file_end, filename) cleaned_data. del_slice cleaned_data file_start file_end)
       (rev (sort_key fst (rev to_delete))) data"

text \<open>
  \<open>remove_files_from_archive\<close>; the caller passes the signature list, which the source
  takes from \<open>FILES_TO_REMOVE\<close> when the argument is left out. The number of removed
  blocks, which the source prints, is the length of \<open>files_to_delete\<close>.
\<close>

definition remove_files_from_archive :: "byte list \<Rightarrow> nat list \<Rightarrow> byte list list \<Rightarrow> byte list" where
  "remove_files_from_archive data pattern_positions files_to_remove =
     (if files_to_remove = [] \<or> pattern_positions = [] then data
      else let to_delete = files_to_delete data pattern_positions files_to_remove
           in if to_delete = [] then data else delete_spans data to_delete)"

text \<open>
  The block spans of a list of match positions and a buffer length: \<open>[start, end)\<close>
  with \<open>end\<close> the next position, or the buffer length for the last span.
\<close>

fun block_spans :: "nat list \<Rightarrow> nat \<Rightarrow> (nat \<times> nat) list" where
  "block_spans [] n = []"
| "block_spans [p] n = [(p, n)]"
| "block_spans (p # q # ps) n = (p, q) # block_spans (q # ps) n"

text \<open>
  The reference strategy of the specification: compute the retained spans up front (the
  bytes before the first match, which belong to no block and are never marked, and every
  block span that is not marked) and copy them, in their original order, into a fresh
  buffer.
\<close>

definition retained_spans :: "nat list \<Rightarrow> nat \<Rightarrow> (nat \<times> nat \<Rightarrow> bool) \<Rightarrow> (nat \<times> nat) list" where
  "retained_spans positions n marked =
     (0, (case positions of [] \<Rightarrow> n | p # _ \<Rightarrow> p)) # filter (\<lambda>sp. \<not> marked sp) (block_spans positions n)"

definition copy_spans :: "byte list \<Rightarrow> (nat \<times> nat) list \<Rightarrow> byte list" where
  "copy_spans data spans = concat (map (\<lambda>(s, e). slice data s e) spans)"

definition reference_copy :: "byte list \<Rightarrow> nat list \<Rightarrow> (nat \<times> nat \<Rightarrow> bool) \<Rightarrow> byte list" where
  "reference_copy data positions marked = copy_spans data (retained_spans positions (length data) marked)"

text \<open>A span is marked when some exclusion signature is found in its bytes.\<close>

definition span_marked :: "byte list \<Rightarrow> byte list list \<Rightarrow> nat \<times> nat \<Rightarrow> bool" where
  "span_marked data files_to_remove sp =
     (\<exists>signature \<in> set files_to_remove. py_in signature (slice data (fst sp) (snd sp)))"

section \<open>IndexBuilder: \<open>process_archive\<close>\<close>

text \<open>\<open>s.upper()\<close> on a string of ASCII characters.\<close>

definition upper_ascii :: "byte list \<Rightarrow> byte list" where
  "upper_ascii s = map (\<lambda>c. if 0x61 \<le> c \<and> c \<le> 0x7A then c - 0x20 else c) s"

text \<open>
  \<open>v.to_bytes(k, byteorder='little')\<close>: \<open>OverflowError\<close> for a negative value and
  for one that does not fit into \<open>k\<close> bytes.
\<close>

definition to_bytes_le :: "int \<Rightarrow> nat \<Rightarrow> error + byte list" where
  "to_bytes_le v k =
     (if v < 0 \<or> 2 ^ (8 * k) \<le> v then Inl OverflowError
      else Inr (map (\<lambda>j. word_of_int (v div 2 ^ (8 * j))) [0..<k]))"

text \<open>The unsigned little-endian value of a byte field, used to state what a field holds.\<close>

definition from_bytes_le :: "byte list \<Rightarrow> nat" where
  "from_bytes_le bs = foldr (\<lambda>b acc. unat b + 256 * acc) bs 0"

text \<open>
  \<open>filenames_to_exclude = {sig.decode('ascii', errors='ignore').upper() for sig in FILES_TO_REMOVE}\<close>
\<close>

definition filenames_to_exclude :: "byte list set" where
  "filenames_to_exclude = set (map (\<lambda>sig. upper_ascii (decode_ascii_ignore sig)) FILES_TO_REMOVE)"

text \<open>\<open>data[name_start:name_end].split(b'\x20', 1)[0][:13]\<close>\<close>

definition block_name :: "byte list \<Rightarrow> nat \<Rightarrow> byte list" where
  "block_name data pos =
     (let name_start = pos + OFFSET_AFTER_PATTERN;
          name_end = name_start + 32
      in take 13 (takeWhile (\<lambda>b. b \<noteq> 0x20) (slice data name_start name_end)))"

text \<open>
  The \<open>for pos in positions\<close> loop; it returns the two parallel lists
  \<open>index_blocks\<close> and \<open>final_positions\<close>.
\<close>

fun index_loop :: "byte list \<Rightarrow> nat list \<Rightarrow> byte list list \<times> nat list" where
  "index_loop data [] = ([], [])"
| "index_loop data (pos # rest) =
     (let name_bytes = block_name data pos;
          filename_ascii = upper_ascii (decode_ascii_ignore name_bytes)
      in if filename_ascii \<in> filenames_to_exclude then index_loop data rest
         else let index_block = set_slice (replicate NAME_LEN 0) 0 (length name_bytes) name_bytes;
                  (index_blocks, final_positions) = index_loop data rest
              in (index_block # index_blocks, pos # final_positions))"

text \<open>
  The \<open>for index_block, pos in zip(index_blocks, final_positions)\<close> loop. A
  \<open>to_bytes\<close> that raises ends the whole function.
\<close>

fun patch_offsets :: "nat \<Rightarrow> byte list list \<Rightarrow> nat list \<Rightarrow> error + byte list list" where
  "patch_offsets base_offset (index_block # index_blocks) (pos # final_positions) =
     (case to_bytes_le (int (pos + base_offset)) 3 of
        Inl e \<Rightarrow> Inl e
      | Inr offset_bytes \<Rightarrow>
          (case patch_offsets base_offset index_blocks final_positions of
             Inl e \<Rightarrow> Inl e
           | Inr patched \<Rightarrow> Inr (set_slice index_block 13 16 offset_bytes # patched)))"
| "patch_offsets base_offset _ _ = Inr []"

definition base_offset_of :: "nat \<Rightarrow> nat" where
  "base_offset_of file_count = file_count * NAME_LEN + HEADER_SIZE"

text \<open>
  \<open>process_archive\<close>, from the bytes read from the file on. The result is
  \<open>(index_blocks, data, file_count, final_positions)\<close>.
\<close>

definition process_archive ::
  "byte list \<Rightarrow> error + (byte list list \<times> byte list \<times> nat \<times> nat list)" where
  "process_archive file_content =
     (let all_positions = find_all_mdmd_patterns file_content;
          data = remove_files_from_archive file_content all_positions FILES_TO_REMOVE;
          positions = find_all_mdmd_patterns data;
          (index_blocks, final_positions) = index_loop data positions;
          file_count = length index_blocks;
          base_offset = base_offset_of file_count
      in case patch_offsets base_offset index_blocks final_positions of
           Inl e \<Rightarrow> Inl e
         | Inr patched \<Rightarrow> Inr (patched, data, file_count, final_positions))"

text \<open>The record and the name test of one block, as the loop computes them.\<close>

definition index_record :: "byte list \<Rightarrow> nat \<Rightarrow> byte list" where
  "index_record data pos = block_name data pos @ replicate (17 - length (block_name data pos)) 0"

definition name_excluded :: "byte list \<Rightarrow> nat \<Rightarrow> bool" where
  "name_excluded data pos \<longleftrightarrow>
     upper_ascii (decode_ascii_ignore (block_name data pos)) \<in> filenames_to_exclude"

section \<open>HeaderBuilder: \<open>build_header_dynamically\<close>\<close>

text \<open>
  The value of \<open>get_file_modification_time(filepath)\<close>, a \<open>datetime\<close> in UTC,
  is an input of the model: reading the file system is outside it. The fields are Python
  integers; the microseconds, which the header does not use, are left out.
\<close>

record datetime =
  year :: int
  month :: int
  day :: int
  hour :: int
  minute :: int
  second :: int

definition is_leap :: "int \<Rightarrow> bool" where
  "is_leap y \<longleftrightarrow> y mod 4 = 0 \<and> (y mod 100 \<noteq> 0 \<or> y mod 400 = 0)"

definition days_in_month :: "int \<Rightarrow> int \<Rightarrow> int" where
  "days_in_month y m =
     (if m = 2 then (if is_leap y then 29 else 28)
      else if m = 4 \<or> m = 6 \<or> m = 9 \<or> m = 11 then 30 else 31)"

text \<open>
  The values a \<open>datetime\<close> object can hold.
\<close>

definition valid_datetime :: "datetime \<Rightarrow> bool" where
  "valid_datetime dt \<longleftrightarrow>
     1 \<le> year dt \<and> year dt \<le> 9999 \<and> 1 \<le> month dt \<and> month dt \<le> 12
     \<and> 1 \<le> day dt \<and> day dt \<le> days_in_month (year dt) (month dt)
     \<and> 0 \<le> hour dt \<and> hour dt < 24 \<and> 0 \<le> minute dt \<and> minute dt < 60
     \<and> 0 \<le> second dt \<and> second dt < 60"

text \<open>
  \<open>TIME_OFFSET = datetime.timedelta(hours=4, minutes=30)\<close>, in seconds.
\<close>

definition TIME_OFFSET :: int where
  "TIME_OFFSET = 4 * 3600 + 30 * 60"

text \<open>
  \<open>mtime + TIME_OFFSET\<close>: the offset is less than a day, so the date moves on by at
  most one day; a result after year 9999 raises \<open>OverflowError\<close>.
\<close>

definition next_day :: "datetime \<Rightarrow> datetime" where
  "next_day dt =
     (if day dt < days_in_month (year dt) (month dt) then dt\<lparr>day := day dt + 1\<rparr>
      else if month dt < 12 then dt\<lparr>month := month dt + 1, day := 1\<rparr>
      else dt\<lparr>year := year dt + 1, month := 1, day := 1\<rparr>)"

definition add_time_offset :: "datetime \<Rightarrow> error + datetime" where
  "add_time_offset dt =
     (let secs = hour dt * 3600 + minute dt * 60 + second dt + TIME_OFFSET;
          rolled = (if secs < 86400 then dt else next_day dt);
          rem = secs mod 86400
      in if 9999 < year rolled then Inl OverflowError
         else Inr (rolled\<lparr>hour := rem div 3600, minute := rem mod 3600 div 60, second := rem mod 60\<rparr>))"

text \<open>
  The packed fields:
  \<open>dos_date = (dos_year << 9) | (month << 5) | day\<close> and
  \<open>dos_time = (hour << 11) | (minute << 5) | (second // 2)\<close>.
\<close>

definition dos_date_of :: "datetime \<Rightarrow> int" where
  "dos_date_of mod_date =
     (let dos_year = year mod_date - 1980
      in push_bit 9 dos_year OR push_bit 5 (month mod_date) OR day mod_date)"

definition dos_time_of :: "datetime \<Rightarrow> int" where
  "dos_time_of mod_date =
     push_bit 11 (hour mod_date) OR push_bit 5 (minute mod_date) OR (second mod_date div 2)"

text \<open>
  \<open>b'~INDEX~'\<close>
\<close>

definition INDEX_MARKER :: "byte list" where
  "INDEX_MARKER = [0x7E, 0x49, 0x4E, 0x44, 0x45, 0x58, 0x7E]"

text \<open>
  The function, statement by statement; \<open>filepath\<close> is replaced by the modification
  time read from it. The result is \<open>(header, dos_time, dos_date)\<close>.
\<close>

definition build_header_dynamically :: "nat \<Rightarrow> datetime \<Rightarrow> error + (byte list \<times> int \<times> int)" where
  "build_header_dynamically file_count mtime =
     (let header = replicate HEADER_SIZE 0;
          header = set_slice header 0x00 0x04 MDMD_SIGNATURE;
          header = header[0x04 := 0x0A];
          header = header[0x05 := 0x01]
      in case to_bytes_le (int HEADER_SIZE) 2 of Inl e \<Rightarrow> Inl e | Inr header_size_bytes \<Rightarrow>
      let header = set_slice header 0x06 0x08 header_size_bytes
      in case to_bytes_le (int file_count) 2 of Inl e \<Rightarrow> Inl e | Inr file_count_bytes \<Rightarrow>
      let header = set_slice header 0x0A 0x0C file_count_bytes
      in case to_bytes_le (int (file_count * NAME_LEN)) 2 of Inl e \<Rightarrow> Inl e | Inr table_size_bytes \<Rightarrow>
      let header = set_slice header 0x19 0x1B table_size_bytes;
          header = set_slice header 0x1D 0x1F table_size_bytes
      in case add_time_offset mtime of Inl e \<Rightarrow> Inl e | Inr mod_date \<Rightarrow>
      let dos_date = dos_date_of mod_date;
          dos_time = dos_time_of mod_date
      in case to_bytes_le dos_time 2 of Inl e \<Rightarrow> Inl e | Inr dos_time_bytes \<Rightarrow>
      let header = set_slice header 0x23 0x25 dos_time_bytes
      in case to_bytes_le dos_date 2 of Inl e \<Rightarrow> Inl e | Inr dos_date_bytes \<Rightarrow>
      let header = set_slice header 0x25 0x27 dos_date_bytes;
          header = header[0x29 := 0x07];
          header = set_slice header 0x2A 0x31 INDEX_MARKER;
          header = fold (\<lambda>i h. h[i := 0x20]) [0x31..<0x36] header;
          header = header[0x36 := 0x00];
          header = fold (\<lambda>i h. h[i := 0x20]) [0x37..<0x7A] header
      in Inr (header, dos_time, dos_date))"

text \<open>
  Seconds on the proleptic Gregorian time line, counted as Python's \<open>toordinal\<close>
  counts days: used to state what adding the offset means.
\<close>

definition days_before_year :: "int \<Rightarrow> int" where
  "days_before_year y = (y - 1) * 365 + (y - 1) div 4 - (y - 1) div 100 + (y - 1) div 400"

definition days_before_month :: "int \<Rightarrow> int \<Rightarrow> int" where
  "days_before_month y m =
     [0, 31, 59, 90, 120, 151, 181, 212, 243, 273, 304, 334] ! (nat m - 1)
       + (if 2 < m \<and> is_leap y then 1 else 0)"

definition ordinal :: "datetime \<Rightarrow> int" where
  "ordinal dt = days_before_year (year dt) + days_before_month (year dt) (month dt) + day dt"

definition datetime_seconds :: "datetime \<Rightarrow> int" where
  "datetime_seconds dt = ordinal dt * 86400 + hour dt * 3600 + minute dt * 60 + second dt"

text \<open>
  The layout of a header in terms of its eight variable bytes: file count, table size
  (twice), DOS time and DOS date.
\<close>

definition header_layout :: "byte \<Rightarrow> byte \<Rightarrow> byte \<Rightarrow> byte \<Rightarrow> byte \<Rightarrow> byte \<Rightarrow> byte \<Rightarrow> byte \<Rightarrow> byte list" where
  "header_layout c0 c1 t0 t1 m0 m1 d0 d1 =
     [0x4D, 0x44, 0x6D, 0x64, 0x0A, 0x01, 0x7A, 0, 0, 0, c0, c1,
      0, 0, 0, 0, 0, 0, 0, 0, 0, 0, 0, 0,
      0, t0, t1, 0, 0, t0, t1, 0, 0, 0, 0, m0,
      m1, d0, d1, 0, 0, 0x07, 0x7E, 0x49, 0x4E, 0x44, 0x45, 0x58,
      0x7E, 0x20, 0x20, 0x20, 0x20, 0x20, 0, 0x20, 0x20, 0x20, 0x20, 0x20,
      0x20, 0x20, 0x20, 0x20, 0x20, 0x20, 0x20, 0x20, 0x20, 0x20, 0x20, 0x20,
      0x20, 0x20, 0x20, 0x20, 0x20, 0x20, 0x20, 0x20, 0x20, 0x20, 0x20, 0x20,
      0x20, 0x20, 0x20, 0x20, 0x20, 0x20, 0x20, 0x20, 0x20, 0x20, 0x20, 0x20,
      0x20, 0x20, 0x20, 0x20, 0x20, 0x20, 0x20, 0x20, 0x20, 0x20, 0x20, 0x20,
      0x20, 0x20, 0x20, 0x20, 0x20, 0x20, 0x20, 0x20, 0x20, 0x20, 0x20, 0x20,
      0x20, 0x20]"

section \<open>Facts about the sequence primitives\<close>

lemma find_sub_Some:
  "find_sub sub xs = Some i \<Longrightarrow> prefix sub (drop i xs) \<and> (\<forall>j<i. \<not> prefix sub (drop j xs))"
proof (induction xs arbitrary: i)
  case Nil
  then show ?case by (auto split: if_splits)
next
  case (Cons x xs)
  show ?case
  proof (cases "prefix sub (x # xs)")
    case True
    with Cons.prems show ?thesis by simp
  next
    case False
    with Cons.prems obtain k where k: "find_sub sub xs = Some k" "i = Suc k" by auto
    from Cons.IH [OF k(1)] False k(2) show ?thesis
      by (auto simp: less_Suc_eq_0_disj)
  qed
qed

lemma find_sub_None:
  "find_sub sub xs = None \<Longrightarrow> \<not> prefix sub (drop j xs)"
proof (induction xs arbitrary: j)
  case Nil
  then show ?case by (auto split: if_splits)
next
  case (Cons x xs)
  then show ?case by (cases j) (auto split: if_splits)
qed

lemma py_find_Some:
  assumes "py_find data sub start = Some i"
  shows "start \<le> i" "i \<le> length data" "prefix sub (drop i data)"
    "\<forall>j. start \<le> j \<and> j < i \<longrightarrow> \<not> prefix sub (drop j data)"
proof -
  from assms obtain k where k: "start \<le> length data" "find_sub sub (drop start data) = Some k"
    "i = start + k"
    by (auto simp: py_find_def split: if_splits)
  show "start \<le> i" using k by simp
  show "i \<le> length data" using find_sub_bound [OF k(2)] k by simp
  show "prefix sub (drop i data)" using find_sub_Some [OF k(2)] k by (simp add: add.commute)
  show "\<forall>j. start \<le> j \<and> j < i \<longrightarrow> \<not> prefix sub (drop j data)"
  proof (intro allI impI)
    fix j assume j: "start \<le> j \<and> j < i"
    then have "j - start < k" using k by auto
    with find_sub_Some [OF k(2)] have "\<not> prefix sub (drop (j - start) (drop start data))" by blast
    with j show "\<not> prefix sub (drop j data)" by simp
  qed
qed

lemma py_find_None:
  assumes "py_find data sub start = None" "start \<le> length data" "start \<le> j"
  shows "\<not> prefix sub (drop j data)"
proof -
  from assms have "find_sub sub (drop start data) = None" by (simp add: py_find_def)
  from find_sub_None [OF this, of "j - start"] assms(3) show ?thesis by simp
qed

lemma prefix_occurs_at:
  "sub \<noteq> [] \<Longrightarrow> prefix sub (drop i data) \<longleftrightarrow> occurs_at sub data i"
proof
  assume ne: "sub \<noteq> []" and p: "prefix sub (drop i data)"
  then obtain zs where zs: "drop i data = sub @ zs" by (auto simp: prefix_def)
  then have "length sub \<le> length data - i" by (metis length_append length_drop le_add1)
  moreover have "i < length data" using zs ne by (cases "i < length data") auto
  ultimately show "occurs_at sub data i" using zs by (simp add: occurs_at_def)
next
  assume "occurs_at sub data i"
  then have "take (length sub) (drop i data) = sub" by (simp add: occurs_at_def)
  then show "prefix sub (drop i data)" by (metis take_is_prefix)
qed

lemma filter_upt_none: "(\<forall>j. a \<le> j \<and> j < b \<longrightarrow> \<not> P j) \<Longrightarrow> filter P [a..<b] = []"
  by (auto simp: filter_empty_conv)

lemma find_all_loop_filter:
  "find_all_loop data pos = filter (occurs_at MDMD_SIGNATURE data) [pos..<length data]"
proof (induction data pos rule: find_all_loop.induct)
  case (1 data pos)
  have ne: "MDMD_SIGNATURE \<noteq> []" by (simp add: MDMD_SIGNATURE_def)
  show ?case
  proof (cases "pos < length data")
    case False
    then show ?thesis by (simp add: find_all_loop.simps [of data pos])
  next
    case True
    show ?thesis
    proof (cases "py_find data MDMD_SIGNATURE pos")
      case None
      have "\<forall>j. pos \<le> j \<and> j < length data \<longrightarrow> \<not> occurs_at MDMD_SIGNATURE data j"
        using py_find_None [OF None] True prefix_occurs_at [OF ne] by auto
      then have "filter (occurs_at MDMD_SIGNATURE data) [pos..<length data] = []"
        by (rule filter_upt_none)
      with True None show ?thesis by (simp add: find_all_loop.simps [of data pos])
    next
      case (Some index)
      note f = py_find_Some [OF Some]
      have occ: "occurs_at MDMD_SIGNATURE data index"
        using f(3) prefix_occurs_at [OF ne] by blast
      then have lt: "index < length data"
        by (simp add: occurs_at_def MDMD_SIGNATURE_def)
      have before: "filter (occurs_at MDMD_SIGNATURE data) [pos..<index] = []"
        using f(4) prefix_occurs_at [OF ne] by (intro filter_upt_none) auto
      have split: "[pos..<length data] = [pos..<index] @ index # [index + 1..<length data]"
        using f(1) lt by (metis Suc_eq_plus1 le_add_diff_inverse less_imp_le_nat upt_add_eq_append upt_conv_Cons)
      have "find_all_loop data pos = index # find_all_loop data (index + 1)"
        using True Some by (simp add: find_all_loop.simps [of data pos])
      also have "\<dots> = index # filter (occurs_at MDMD_SIGNATURE data) [index + 1..<length data]"
        using "1.IH" [OF True Some] by simp
      also have "\<dots> = filter (occurs_at MDMD_SIGNATURE data) [pos..<length data]"
        using before occ by (simp add: split)
      finally show ?thesis .
    qed
  qed
qed

section \<open>PathRewriter and assembly\<close>

text \<open>
  \<open>bytes.fromhex("4D 44 6D 64 0A 01 7A 00 00 00 00 00")\<close>
\<close>

definition MDMD_FILE_HEADER_PATTERN :: "byte list" where
  "MDMD_FILE_HEADER_PATTERN = [0x4D, 0x44, 0x6D, 0x64, 0x0A, 0x01, 0x7A, 0x00, 0x00, 0x00, 0x00, 0x00]"

definition PATH_OFFSET_IN_HEADER :: nat where
  "PATH_OFFSET_IN_HEADER = 0x36"

text \<open>
  The default \<open>target_path\<close>, \<open>C:\LINKS\TEMP\\<close> written with single
  backslashes, as the list of its code points.
\<close>

definition DEFAULT_TARGET_PATH :: "nat list" where
  "DEFAULT_TARGET_PATH = [0x43, 0x3A, 0x5C, 0x4C, 0x49, 0x4E, 0x4B, 0x53, 0x5C, 0x54, 0x45, 0x4D, 0x50, 0x5C]"

text \<open>
  \<open>target_path.encode('ascii')\<close> raises for a code point above 127, and
  \<open>bytes([len(path_bytes)])\<close> for a length above 255.
\<close>

definition encode_ascii :: "nat list \<Rightarrow> error + byte list" where
  "encode_ascii s = (if list_all (\<lambda>c. c < 128) s then Inr (map of_nat s) else Inl UnicodeEncodeError)"

definition path_segment_of :: "nat list \<Rightarrow> error + byte list" where
  "path_segment_of target_path =
     (case encode_ascii target_path of
        Inl e \<Rightarrow> Inl e
      | Inr path_bytes \<Rightarrow>
          if length path_bytes < 256 then Inr (of_nat (length path_bytes) # path_bytes)
          else Inl ValueError)"

text \<open>
  The inner loop \<open>while pos < len(data) and data[pos] != 0x20\<close>.
\<close>

function pad_spaces :: "byte list \<Rightarrow> nat \<Rightarrow> byte list" where
  "pad_spaces data pos =
     (if pos < length data \<and> data ! pos \<noteq> 0x20 then pad_spaces (data[pos := 0x20]) (pos + 1)
      else data)"
  by pat_completeness auto

termination
  by (relation "measure (\<lambda>(data, pos). length data - pos)") auto

declare pad_spaces.simps [simp del]

lemma length_pad_spaces: "length (pad_spaces data pos) = length data"
proof (induction data pos rule: pad_spaces.induct)
  case (1 data pos)
  then show ?case by (simp add: pad_spaces.simps [of data pos])
qed

lemma length_set_slice:
  "e \<le> length xs \<Longrightarrow> s \<le> e \<Longrightarrow> length ys = e - s \<Longrightarrow> length (set_slice xs s e ys) = length xs"
  by (simp add: set_slice_def)

lemma py_find_lt:
  assumes "py_find data sub start = Some i" "sub \<noteq> []"
  shows "i < length data"
proof -
  from py_find_Some(3) [OF assms(1)] have "prefix sub (drop i data)" .
  with assms(2) have "drop i data \<noteq> []" by auto
  then show ?thesis by simp
qed

text \<open>
  The \<open>while True\<close> loop. The function returns the buffer; what it prints is
  returned with it: the number of replacements and, for every warning, the offset the
  warning names.
\<close>

function replace_loop ::
  "byte list \<Rightarrow> byte list \<Rightarrow> nat \<Rightarrow> nat \<Rightarrow> nat list \<Rightarrow> byte list \<times> nat \<times> nat list" where
  "replace_loop data path_segment search_pos total_replacements warnings =
     (case py_find data MDMD_FILE_HEADER_PATTERN search_pos of
        None \<Rightarrow> (data, total_replacements, warnings)
      | Some pattern_pos \<Rightarrow>
          (let path_start = pattern_pos + PATH_OFFSET_IN_HEADER;
               path_end = path_start + length path_segment
           in if length data \<le> path_end
              then replace_loop data path_segment (pattern_pos + 1) total_replacements
                     (warnings @ [pattern_pos])
              else replace_loop
                     (pad_spaces (set_slice data path_start path_end path_segment) path_end)
                     path_segment (pattern_pos + 1) (total_replacements + 1) warnings))"
  by pat_completeness auto

termination
proof (relation "measure (\<lambda>(data, path_segment, search_pos, total, warnings). length data - search_pos)")
  show "wf (measure (\<lambda>(data, path_segment, search_pos, total, warnings). length data - search_pos))"
    by simp
next
  fix data path_segment :: "byte list" and search_pos total_replacements :: nat
    and warnings :: "nat list" and pattern_pos path_start path_end
  assume f: "py_find data MDMD_FILE_HEADER_PATTERN search_pos = Some pattern_pos"
  have "MDMD_FILE_HEADER_PATTERN \<noteq> []" by (simp add: MDMD_FILE_HEADER_PATTERN_def)
  from py_find_lt [OF f this] py_find_ge [OF f]
  show "((data, path_segment, pattern_pos + 1, total_replacements, warnings @ [pattern_pos]),
         (data, path_segment, search_pos, total_replacements, warnings))
        \<in> measure (\<lambda>(data, path_segment, search_pos, total, warnings). length data - search_pos)"
    by simp
next
  fix data path_segment :: "byte list" and search_pos total_replacements :: nat
    and warnings :: "nat list" and pattern_pos path_start path_end
  assume f: "py_find data MDMD_FILE_HEADER_PATTERN search_pos = Some pattern_pos"
    and ps: "path_start = pattern_pos + PATH_OFFSET_IN_HEADER"
    and pe: "path_end = path_start + length path_segment"
    and fit: "\<not> length data \<le> path_end"
  have "MDMD_FILE_HEADER_PATTERN \<noteq> []" by (simp add: MDMD_FILE_HEADER_PATTERN_def)
  from py_find_lt [OF f this] py_find_ge [OF f] ps pe fit
  show "((pad_spaces (set_slice data path_start path_end path_segment) path_end,
          path_segment, pattern_pos + 1, total_replacements + 1, warnings),
         (data, path_segment, search_pos, total_replacements, warnings))
        \<in> measure (\<lambda>(data, path_segment, search_pos, total, warnings). length data - search_pos)"
    by (simp add: length_pad_spaces length_set_slice)
qed

declare replace_loop.simps [simp del]

definition replace_internal_paths :: "byte list \<Rightarrow> nat list \<Rightarrow> error + (byte list \<times> nat \<times> nat list)" where
  "replace_internal_paths data target_path =
     (case path_segment_of target_path of
        Inl e \<Rightarrow> Inl e
      | Inr path_segment \<Rightarrow> Inr (replace_loop data path_segment 0 0 []))"

text \<open>
  \<open>assemble_and_save\<close> up to the buffer it writes, and \<open>process_single_file\<close>
  up to the same point; an exception anywhere makes \<open>process_single_file\<close> report
  failure.
\<close>

definition assemble_and_save :: "byte list \<Rightarrow> byte list list \<Rightarrow> byte list \<Rightarrow> error + (byte list \<times> nat \<times> nat list)" where
  "assemble_and_save header index_blocks data =
     (let index_table = concat index_blocks;
          new_content = header @ index_table @ data
      in replace_internal_paths new_content DEFAULT_TARGET_PATH)"

definition process_single_file ::
  "byte list \<Rightarrow> datetime \<Rightarrow> error + (byte list \<times> nat \<times> nat list)" where
  "process_single_file file_content mtime =
     (case process_archive file_content of
        Inl e \<Rightarrow> Inl e
      | Inr (index_blocks, filtered_data, file_count, positions) \<Rightarrow>
          (case build_header_dynamically file_count mtime of
             Inl e \<Rightarrow> Inl e
           | Inr (header, dos_time, dos_date) \<Rightarrow> assemble_and_save header index_blocks filtered_data))"

text \<open>
  The bytes \<open>[length][path]\<close> of the default target path, and the test that no
  occurrence of the sub-header signature can start inside a list, whatever follows it.
\<close>

definition default_path_segment :: "byte list" where
  "default_path_segment =
     [0x0E, 0x43, 0x3A, 0x5C, 0x4C, 0x49, 0x4E, 0x4B, 0x53, 0x5C, 0x54, 0x45, 0x4D, 0x50, 0x5C]"

fun no_pattern_start :: "byte list \<Rightarrow> bool" where
  "no_pattern_start [] = True"
| "no_pattern_start (x # xs) =
     (\<not> prefix MDMD_FILE_HEADER_PATTERN (x # xs) \<and> \<not> prefix (x # xs) MDMD_FILE_HEADER_PATTERN
      \<and> no_pattern_start xs)"

section \<open>Example inputs\<close>

text \<open>Three blocks, \<open>MDmdxx\<close>, \<open>MDmdPATCH.OFS\<close> and \<open>MDmdyy\<close>.\<close>

definition ex_archive :: "byte list" where
  "ex_archive = [0x4D, 0x44, 0x6D, 0x64, 0x78, 0x78,
                 0x4D, 0x44, 0x6D, 0x64, 0x50, 0x41, 0x54, 0x43, 0x48, 0x2E, 0x4F, 0x46, 0x53,
                 0x4D, 0x44, 0x6D, 0x64, 0x79, 0x79]"

text \<open>
  Three blocks with the name fields \<open>H1.D\<close>, \<open>patch.ofs\<close> and \<open>H2\<close>, 42 bytes
  after each signature.
\<close>

definition ex_named :: "byte list" where
  "ex_named = MDMD_SIGNATURE @ replicate 38 0 @ [0x48, 0x31, 0x2E, 0x44, 0x20]
            @ MDMD_SIGNATURE @ replicate 38 0 @ [0x70, 0x61, 0x74, 0x63, 0x68, 0x2E, 0x6F, 0x66, 0x73, 0x20]
            @ MDMD_SIGNATURE @ replicate 38 0 @ [0x48, 0x32]"

text \<open>
  The modification time of scenario D, 2023-06-15 14:30:10 UTC.
\<close>

definition ex_mtime :: datetime where
  "ex_mtime = \<lparr>year = 2023, month = 6, day = 15, hour = 14, minute = 30, second = 10\<rparr>"

text \<open>
  A buffer that starts with the sub-header signature and ends exactly where its path
  field would end: 12 + 42 + 15 = 69 bytes.
\<close>

definition ex_exact_fit :: "byte list" where
  "ex_exact_fit = MDMD_FILE_HEADER_PATTERN @ replicate 42 0x41 @ replicate 15 0x42"

section \<open>Further facts about the scanner\<close>

lemma find_all_mdmd_patterns_filter:
  "find_all_mdmd_patterns data = filter (occurs_at MDMD_SIGNATURE data) [0..<length data]"
  by (simp add: find_all_mdmd_patterns_def find_all_loop_filter)

lemma find_all_mdmd_patterns_set:
  "set (find_all_mdmd_patterns data) = {i. occurs_at MDMD_SIGNATURE data i}"
proof -
  have "occurs_at MDMD_SIGNATURE data i \<Longrightarrow> i < length data" for i
    by (simp add: occurs_at_def MDMD_SIGNATURE_def)
  then show ?thesis unfolding find_all_mdmd_patterns_filter by auto
qed

section \<open>Properties of the scanner\<close>

text \<open>
  C8. \<open>find_all_mdmd_patterns\<close> returns, for every buffer, the strictly increasing
  list of all offsets at which the four bytes \<open>MDmd\<close> occur: it is the ascending
  enumeration of the offsets of the buffer filtered by "the signature occurs here", so no
  occurrence is skipped (the cursor advances by one byte after a hit). It is empty when the
  signature does not occur, and as a HOL function it depends on the buffer alone.
\<close>

theorem find_all_mdmd_patterns_all_occurrences:
  "find_all_mdmd_patterns data = filter (occurs_at MDMD_SIGNATURE data) [0..<length data]
   \<and> sorted_wrt (<) (find_all_mdmd_patterns data)
   \<and> set (find_all_mdmd_patterns data) = {i. occurs_at MDMD_SIGNATURE data i}
   \<and> ((\<forall>i. \<not> occurs_at MDMD_SIGNATURE data i) \<longrightarrow> find_all_mdmd_patterns data = [])"
proof -
  have eq: "find_all_mdmd_patterns data = filter (occurs_at MDMD_SIGNATURE data) [0..<length data]"
    by (simp add: find_all_mdmd_patterns_def find_all_loop_filter)
  have "sorted_wrt (<) [0..<length data]" by simp
  then have srt: "sorted_wrt (<) (find_all_mdmd_patterns data)"
    unfolding eq by (rule sorted_wrt_filter)
  have "occurs_at MDMD_SIGNATURE data i \<Longrightarrow> i < length data" for i
    by (simp add: occurs_at_def MDMD_SIGNATURE_def)
  then have st: "set (find_all_mdmd_patterns data) = {i. occurs_at MDMD_SIGNATURE data i}"
    unfolding eq by auto
  from eq srt st show ?thesis by (simp add: filter_empty_conv)
qed

theorem find_all_mdmd_patterns_all_occurrences_witness:
  "find_all_mdmd_patterns [0x4D, 0x44, 0x6D, 0x64, 0x4D, 0x44, 0x6D, 0x64, 0x20] = [0, 4]
   \<and> {i. occurs_at MDMD_SIGNATURE [0x4D, 0x44, 0x6D, 0x64, 0x4D, 0x44, 0x6D, 0x64, 0x20] i} = {0, 4}
   \<and> (\<forall>i. \<not> occurs_at MDMD_SIGNATURE [0x4D, 0x44, 0x6D] i)
   \<and> find_all_mdmd_patterns [0x4D, 0x44, 0x6D] = []"
proof -
  let ?d = "[0x4D, 0x44, 0x6D, 0x64, 0x4D, 0x44, 0x6D, 0x64, 0x20] :: byte list"
  let ?e = "[0x4D, 0x44, 0x6D] :: byte list"
  have a: "filter (occurs_at MDMD_SIGNATURE ?d) [0..<length ?d] = [0, 4]"
    by code_simp
  have b: "\<forall>i. \<not> occurs_at MDMD_SIGNATURE ?e i"
    by (simp add: occurs_at_def MDMD_SIGNATURE_def)
  from find_all_mdmd_patterns_all_occurrences [of ?d] a
  have c: "find_all_mdmd_patterns ?d = [0, 4]" by (simp only:)
  from find_all_mdmd_patterns_all_occurrences [of ?d]
  have "set (find_all_mdmd_patterns ?d) = {i. occurs_at MDMD_SIGNATURE ?d i}" by blast
  then have d: "{i. occurs_at MDMD_SIGNATURE ?d i} = {0, 4}" unfolding c by auto
  from find_all_mdmd_patterns_all_occurrences [of ?e] b
  have e: "find_all_mdmd_patterns ?e = []" by blast
  from b c d e show ?thesis by blast
qed

section \<open>Facts about the remover\<close>

lemma py_in_occurs: "py_in sub xs \<longleftrightarrow> (\<exists>i. occurs_at sub xs i)"
proof (cases "sub = []")
  case True
  have "find_sub [] xs = Some 0" by (cases xs) auto
  moreover have "occurs_at [] xs 0" by (simp add: occurs_at_def)
  ultimately show ?thesis using True by (auto simp: py_in_def)
next
  case False
  show ?thesis
  proof
    assume "py_in sub xs"
    then obtain i where "find_sub sub xs = Some i" by (auto simp: py_in_def)
    from find_sub_Some [OF this] prefix_occurs_at [OF False] show "\<exists>i. occurs_at sub xs i" by blast
  next
    assume "\<exists>i. occurs_at sub xs i"
    then obtain i where "prefix sub (drop i xs)" using prefix_occurs_at [OF False] by blast
    with find_sub_None [of sub xs i] show "py_in sub xs" by (auto simp: py_in_def)
  qed
qed

lemma find_None_marked:
  "List.find (\<lambda>signature. py_in signature (slice data s e)) sigs = None \<longleftrightarrow> \<not> span_marked data sigs (s, e)"
  by (auto simp: find_None_iff span_marked_def)

lemma files_to_delete_spans:
  "map (\<lambda>(s, e, n). (s, e)) (files_to_delete data ps sigs)
     = filter (span_marked data sigs) (block_spans ps (length data))"
proof (induction ps "length data" rule: block_spans.induct)
  case 1
  then show ?case by simp
next
  case (2 p)
  then show ?case
    by (cases "List.find (\<lambda>signature. py_in signature (slice data p (length data))) sigs")
       (auto simp: find_None_marked [symmetric])
next
  case (3 p q ps)
  then show ?case
    by (cases "List.find (\<lambda>signature. py_in signature (slice data p q)) sigs")
       (auto simp: find_None_marked [symmetric])
qed

lemma map_fst_block_spans: "map fst (block_spans ps n) = ps"
  by (induction ps n rule: block_spans.induct) auto

lemma sort_desc_id:
  assumes "sorted_wrt (<) (map f xs)"
  shows "rev (sort_key f (rev xs)) = rev xs"
proof -
  have d: "distinct (map f xs)" and srt: "sorted (map f xs)"
    using assms by (simp_all add: strict_sorted_iff)
  have "sort_key f (rev xs) = xs"
  proof (rule sort_key_inj_key_eq)
    show "mset (rev xs) = mset xs" by simp
    show "inj_on f (set (rev xs))" using d by (simp add: distinct_map)
    show "sorted (map f xs)" by (rule srt)
  qed
  then show ?thesis by simp
qed

lemma slice_split: "p \<le> q \<Longrightarrow> take p xs @ slice xs p q = take q xs"
  by (metis slice_def le_add_diff_inverse take_add)

lemma delete_marked_spans:
  assumes "sorted_wrt (<) ps" "\<forall>p \<in> set ps. p \<le> length data" "ps \<noteq> []"
  shows "foldr (\<lambda>(s, e) c. del_slice c s e) (filter P (block_spans ps (length data))) data
           = take (hd ps) data @ copy_spans data (filter (\<lambda>sp. \<not> P sp) (block_spans ps (length data)))"
  using assms
proof (induction ps "length data" rule: block_spans.induct)
  case 1
  then show ?case by simp
next
  case (2 p)
  then show ?case by (auto simp: del_slice_def copy_spans_def slice_def)
next
  case (3 p q ps)
  let ?R = "copy_spans data (filter (\<lambda>sp. \<not> P sp) (block_spans (q # ps) (length data)))"
  from 3 have IH: "foldr (\<lambda>(s, e) c. del_slice c s e) (filter P (block_spans (q # ps) (length data))) data
                     = take q data @ ?R"
    by simp
  from "3.prems" have pq: "p < q" "q \<le> length data" by auto
  show ?case
  proof (cases "P (p, q)")
    case True
    then show ?thesis using IH pq by (simp add: del_slice_def)
  next
    case False
    then show ?thesis using IH pq slice_split [of p q data]
      by (simp add: copy_spans_def)
  qed
qed

lemma delete_spans_retained:
  assumes "sorted_wrt (<) ps" "\<forall>p \<in> set ps. p \<le> length data"
    and proj: "map (\<lambda>(s, e, n). (s, e)) to_delete = filter P (block_spans ps (length data))"
  shows "delete_spans data to_delete = reference_copy data ps P"
proof (cases "ps = []")
  case True
  with proj show ?thesis
    by (simp add: delete_spans_def reference_copy_def retained_spans_def copy_spans_def slice_def)
next
  case False
  have "map fst to_delete = map fst (map (\<lambda>(s, e, n). (s, e)) to_delete)"
    by (simp add: case_prod_unfold comp_def)
  also have "\<dots> = map fst (filter P (block_spans ps (length data)))" by (simp only: proj)
  finally have "sorted_wrt (<) (map fst to_delete)"
    using assms(1) map_fst_block_spans [of ps "length data"]
    by (metis sorted_wrt_filter sorted_wrt_map)
  then have "rev (sort_key fst (rev to_delete)) = rev to_delete" by (rule sort_desc_id)
  then have "delete_spans data to_delete
      = foldr (\<lambda>(s, e, n) c. del_slice c s e) to_delete data"
    by (simp add: delete_spans_def foldr_conv_fold)
  also have "\<dots> = foldr ((\<lambda>(s, e) c. del_slice c s e) \<circ> (\<lambda>(s, e, n). (s, e))) to_delete data"
    by (simp add: comp_def case_prod_unfold)
  also have "\<dots> = foldr (\<lambda>(s, e) c. del_slice c s e) (map (\<lambda>(s, e, n). (s, e)) to_delete) data"
    by (simp only: foldr_map)
  also have "\<dots> = take (hd ps) data
      @ copy_spans data (filter (\<lambda>sp. \<not> P sp) (block_spans ps (length data)))"
    unfolding proj using assms(1,2) False by (rule delete_marked_spans)
  also have "\<dots> = reference_copy data ps P"
    using False by (cases ps) (simp_all add: reference_copy_def retained_spans_def copy_spans_def slice_def)
  finally show ?thesis .
qed

lemma files_to_delete_Nil: "files_to_delete data ps [] = []"
  by (induction ps) auto

lemma remove_files_delete_spans:
  "remove_files_from_archive data ps sigs = delete_spans data (files_to_delete data ps sigs)"
  by (auto simp: remove_files_from_archive_def Let_def files_to_delete_Nil delete_spans_def)

lemma files_to_delete_first_match:
  "(s, e, n) \<in> set (files_to_delete data ps sigs) \<Longrightarrow>
     \<exists>k<length sigs. n = decode_ascii_ignore (sigs ! k) \<and> py_in (sigs ! k) (slice data s e)
        \<and> (\<forall>j<k. \<not> py_in (sigs ! j) (slice data s e))"
proof (induction ps)
  case Nil
  then show ?case by simp
next
  case (Cons p ps)
  let ?e = "case ps of [] \<Rightarrow> length data | q # _ \<Rightarrow> q"
  show ?case
  proof (cases "(s, e, n) \<in> set (files_to_delete data ps sigs)")
    case True
    then show ?thesis by (rule Cons.IH)
  next
    case False
    with Cons.prems have
      "(s, e, n) \<in> set (case List.find (\<lambda>signature. py_in signature (slice data p ?e)) sigs of
                          None \<Rightarrow> [] | Some sg \<Rightarrow> [(p, ?e, decode_ascii_ignore sg)])"
      by (simp add: Let_def)
    then obtain sg where
      sg: "List.find (\<lambda>signature. py_in signature (slice data p ?e)) sigs = Some sg"
        "s = p" "e = ?e" "n = decode_ascii_ignore sg"
      by (cases "List.find (\<lambda>signature. py_in signature (slice data p ?e)) sigs") auto
    from sg(1) show ?thesis unfolding find_Some_iff sg(2-4) by blast
  qed
qed

section \<open>Properties of the remover\<close>



text \<open>
  C3. The spans that \<open>remove_files_from_archive\<close> marks are exactly the block spans in
  whose bytes some exclusion signature occurs; the name recorded for a marked span is that of
  the first signature, in list order, found in it; for increasing match positions the result
  is the bytes before the first match followed by the unmarked spans, untouched and in
  order; and with an empty exclusion list, no match positions or no marked span the buffer
  is returned unchanged.
\<close>

theorem remove_files_marks_exactly_matching_spans:
  "map (\<lambda>(s, e, n). (s, e)) (files_to_delete data positions files_to_remove)
     = filter (\<lambda>(s, e). \<exists>signature \<in> set files_to_remove. \<exists>i. occurs_at signature (slice data s e) i)
         (block_spans positions (length data))
   \<and> (\<forall>s e n. (s, e, n) \<in> set (files_to_delete data positions files_to_remove) \<longrightarrow>
         (\<exists>k<length files_to_remove. n = decode_ascii_ignore (files_to_remove ! k)
            \<and> py_in (files_to_remove ! k) (slice data s e)
            \<and> (\<forall>j<k. \<not> py_in (files_to_remove ! j) (slice data s e))))
   \<and> (sorted_wrt (<) positions \<and> (\<forall>p \<in> set positions. p \<le> length data) \<longrightarrow>
         remove_files_from_archive data positions files_to_remove
           = take (case positions of [] \<Rightarrow> length data | p # _ \<Rightarrow> p) data
             @ concat (map (\<lambda>(s, e). slice data s e)
                 (filter (\<lambda>sp. \<not> span_marked data files_to_remove sp)
                    (block_spans positions (length data)))))
   \<and> (files_to_remove = [] \<or> positions = [] \<or> files_to_delete data positions files_to_remove = []
         \<longrightarrow> remove_files_from_archive data positions files_to_remove = data)"
proof (intro conjI allI impI)
  have "span_marked data files_to_remove
          = (\<lambda>(s, e). \<exists>signature \<in> set files_to_remove. \<exists>i. occurs_at signature (slice data s e) i)"
    by (auto simp: span_marked_def py_in_occurs fun_eq_iff)
  then show "map (\<lambda>(s, e, n). (s, e)) (files_to_delete data positions files_to_remove)
     = filter (\<lambda>(s, e). \<exists>signature \<in> set files_to_remove. \<exists>i. occurs_at signature (slice data s e) i)
         (block_spans positions (length data))"
    using files_to_delete_spans [of data positions files_to_remove] by simp
next
  fix s e n
  assume "(s, e, n) \<in> set (files_to_delete data positions files_to_remove)"
  then show "\<exists>k<length files_to_remove. n = decode_ascii_ignore (files_to_remove ! k)
            \<and> py_in (files_to_remove ! k) (slice data s e)
            \<and> (\<forall>j<k. \<not> py_in (files_to_remove ! j) (slice data s e))"
    by (rule files_to_delete_first_match)
next
  assume a: "sorted_wrt (<) positions \<and> (\<forall>p \<in> set positions. p \<le> length data)"
  have "remove_files_from_archive data positions files_to_remove
          = reference_copy data positions (span_marked data files_to_remove)"
    unfolding remove_files_delete_spans
    using a files_to_delete_spans by (intro delete_spans_retained) auto
  then show "remove_files_from_archive data positions files_to_remove
           = take (case positions of [] \<Rightarrow> length data | p # _ \<Rightarrow> p) data
             @ concat (map (\<lambda>(s, e). slice data s e)
                 (filter (\<lambda>sp. \<not> span_marked data files_to_remove sp)
                    (block_spans positions (length data))))"
    by (simp add: reference_copy_def retained_spans_def copy_spans_def slice_def)
next
  assume "files_to_remove = [] \<or> positions = [] \<or> files_to_delete data positions files_to_remove = []"
  then show "remove_files_from_archive data positions files_to_remove = data"
    by (auto simp: remove_files_from_archive_def)
qed

theorem remove_files_marks_exactly_matching_spans_witness:
  "files_to_delete ex_archive [0, 6, 19] FILES_TO_REMOVE
     = [(6, 19, [0x50, 0x41, 0x54, 0x43, 0x48, 0x2E, 0x4F, 0x46, 0x53])]
   \<and> filter (\<lambda>(s, e). \<exists>signature \<in> set FILES_TO_REMOVE. \<exists>i. occurs_at signature (slice ex_archive s e) i)
         (block_spans [0, 6, 19] (length ex_archive)) = [(6, 19)]
   \<and> remove_files_from_archive ex_archive [0, 6, 19] FILES_TO_REMOVE
       = slice ex_archive 0 6 @ slice ex_archive 19 25
   \<and> remove_files_from_archive ex_archive [0, 6, 19] [] = ex_archive"
proof -
  note t = remove_files_marks_exactly_matching_spans [of ex_archive "[0, 6, 19]"]
  have ftd: "files_to_delete ex_archive [0, 6, 19] FILES_TO_REMOVE
     = [(6, 19, [0x50, 0x41, 0x54, 0x43, 0x48, 0x2E, 0x4F, 0x46, 0x53])]"
    by code_simp
  have len: "length ex_archive = 25" by (simp add: ex_archive_def)
  have h: "sorted_wrt (<) [0, 6, 19 :: nat] \<and> (\<forall>p \<in> set [0, 6, 19 :: nat]. p \<le> length ex_archive)"
    by (simp add: len)
  have unm: "filter (\<lambda>sp. \<not> span_marked ex_archive FILES_TO_REMOVE sp)
                    (block_spans [0, 6, 19] (length ex_archive)) = [(0, 6), (19, 25)]"
    by code_simp
  have m: "map (\<lambda>(s, e, n). (s, e)) [(6, 19, [0x50, 0x41, 0x54, 0x43, 0x48, 0x2E, 0x4F, 0x46, 0x53 :: byte])]
             = [(6 :: nat, 19 :: nat)]"
    by simp
  from t [of FILES_TO_REMOVE, THEN conjunct1]
  have c1: "filter (\<lambda>(s, e). \<exists>signature \<in> set FILES_TO_REMOVE. \<exists>i. occurs_at signature (slice ex_archive s e) i)
         (block_spans [0, 6, 19] (length ex_archive)) = [(6, 19)]"
    unfolding ftd m by (rule sym)
  from t [of FILES_TO_REMOVE, THEN conjunct2, THEN conjunct2, THEN conjunct1, rule_format, OF h]
  have "remove_files_from_archive ex_archive [0, 6, 19] FILES_TO_REMOVE
       = take (case [0, 6, 19] of [] \<Rightarrow> length ex_archive | p # _ \<Rightarrow> p) ex_archive
             @ concat (map (\<lambda>(s, e). slice ex_archive s e) [(0, 6), (19, 25)])"
    unfolding unm .
  then have c2: "remove_files_from_archive ex_archive [0, 6, 19] FILES_TO_REMOVE
       = slice ex_archive 0 6 @ slice ex_archive 19 25"
    by simp
  from t [of "[]"] have c3: "remove_files_from_archive ex_archive [0, 6, 19] [] = ex_archive"
    by blast
  from ftd c1 c2 c3 show ?thesis by blast
qed

section \<open>Facts about the index builder\<close>

lemma block_name_length: "length (block_name data pos) \<le> 13"
  by (simp add: block_name_def Let_def)

lemma index_loop_filter:
  "index_loop data ps
     = (map (index_record data) (filter (\<lambda>pos. \<not> name_excluded data pos) ps),
        filter (\<lambda>pos. \<not> name_excluded data pos) ps)"
proof (induction ps)
  case Nil
  then show ?case by simp
next
  case (Cons pos ps)
  have "set_slice (replicate NAME_LEN 0) 0 (length (block_name data pos)) (block_name data pos)
          = index_record data pos"
    by (simp add: set_slice_def index_record_def NAME_LEN_def)
  with Cons show ?case by (simp add: Let_def name_excluded_def)
qed

lemma index_record_length: "length (index_record data pos) = 17"
  using block_name_length [of data pos] by (simp add: index_record_def)

lemma from_bytes_le_append:
  "from_bytes_le (xs @ [b]) = from_bytes_le xs + 256 ^ length xs * unat b"
  by (induction xs) (simp_all add: from_bytes_le_def algebra_simps)

lemma pow2_8_Suc: "(2::int) ^ (8 * Suc k) = 2 ^ (8 * k) * 256"
  by (simp add: power_add)

lemma pow256: "(256::nat) ^ k = 2 ^ (8 * k)"
proof -
  have "(256::nat) = 2 ^ 8" by simp
  then show ?thesis by (simp only: power_mult)
qed

lemma mod_split_256: "0 \<le> v \<Longrightarrow> (v::int) mod (P * 256) = v mod P + P * ((v div P) mod 256)"
  using zmod_zmult2_eq [of 256 v P] by simp

lemma unat_byte_of_int: "int (unat (word_of_int x :: byte)) = x mod 256"
  by (simp add: uint_word_of_int)

lemma from_bytes_le_digits:
  "0 \<le> v \<Longrightarrow>
   int (from_bytes_le (map (\<lambda>j. word_of_int (v div 2 ^ (8 * j)) :: byte) [0..<k])) = v mod 2 ^ (8 * k)"
proof (induction k)
  case 0
  then show ?case by (simp add: from_bytes_le_def)
next
  case (Suc k)
  let ?f = "\<lambda>j. word_of_int (v div 2 ^ (8 * j)) :: byte"
  have "from_bytes_le (map ?f [0..<Suc k])
          = from_bytes_le (map ?f [0..<k]) + 256 ^ k * unat (?f k)"
    using from_bytes_le_append [of "map ?f [0..<k]" "?f k"] by simp
  then have "int (from_bytes_le (map ?f [0..<Suc k]))
          = int (from_bytes_le (map ?f [0..<k])) + 2 ^ (8 * k) * int (unat (?f k))"
    by (simp only: pow256 of_nat_add of_nat_mult of_nat_power of_nat_numeral)
  also have "\<dots> = v mod 2 ^ (8 * k) + 2 ^ (8 * k) * ((v div 2 ^ (8 * k)) mod 256)"
    by (simp only: Suc.IH [OF Suc.prems] unat_byte_of_int)
  also have "\<dots> = v mod 2 ^ (8 * Suc k)"
    by (simp only: pow2_8_Suc mod_split_256 [OF Suc.prems])
  finally show ?case .
qed

lemma to_bytes_le_roundtrip:
  assumes "to_bytes_le v k = Inr bs"
  shows "int (from_bytes_le bs) = v" "length bs = k"
proof -
  from assms have v: "0 \<le> v" "v < 2 ^ (8 * k)"
    and bs: "bs = map (\<lambda>j. word_of_int (v div 2 ^ (8 * j))) [0..<k]"
    by (auto simp: to_bytes_le_def split: if_splits)
  show "int (from_bytes_le bs) = v" unfolding bs using from_bytes_le_digits [OF v(1), of k] v by simp
  show "length bs = k" unfolding bs by simp
qed

lemma to_bytes_le_3_ok:
  assumes "n < 2 ^ 24"
  shows "\<exists>bs. to_bytes_le (int n) 3 = Inr bs \<and> length bs = 3 \<and> from_bytes_le bs = n"
proof -
  have "int n < 2 ^ 24" using assms by (metis of_nat_less_iff of_nat_numeral of_nat_power)
  then obtain bs where bs: "to_bytes_le (int n) 3 = Inr bs"
    by (simp add: to_bytes_le_def)
  from to_bytes_le_roundtrip [OF bs] bs show ?thesis by auto
qed

lemma all_less_two: "(\<forall>i<2::nat. P i) \<longleftrightarrow> P 0 \<and> P 1"
  by (auto simp: less_2_cases_iff)

lemma patched_block:
  assumes "length blk = 17" "length bs = 3"
  shows "length (set_slice blk 13 16 bs) = 17"
    and "slice (set_slice blk 13 16 bs) 13 16 = bs"
    and "take 13 (set_slice blk 13 16 bs) = take 13 blk"
    and "drop 16 (set_slice blk 13 16 bs) = drop 16 blk"
  using assms by (simp_all add: set_slice_def slice_def)

lemma patch_offsets_ok:
  assumes "length blocks = length fps" "\<forall>p \<in> set fps. p + b < 2 ^ 24"
    "\<forall>blk \<in> set blocks. length blk = 17"
  shows "\<exists>patched. patch_offsets b blocks fps = Inr patched \<and> length patched = length fps
           \<and> (\<forall>i<length fps. length (patched ! i) = 17
                 \<and> from_bytes_le (slice (patched ! i) 13 16) = fps ! i + b
                 \<and> take 13 (patched ! i) = take 13 (blocks ! i)
                 \<and> drop 16 (patched ! i) = drop 16 (blocks ! i))"
  using assms
proof (induction blocks fps rule: list_induct2)
  case Nil
  then show ?case by simp
next
  case (Cons blk blocks pos fps)
  from Cons.prems have "pos + b < 2 ^ 24" by simp
  from to_bytes_le_3_ok [OF this] obtain bs where
    bs: "to_bytes_le (int (pos + b)) 3 = Inr bs" "length bs = 3" "from_bytes_le bs = pos + b"
    by blast
  from Cons.IH Cons.prems obtain patched where
    pt: "patch_offsets b blocks fps = Inr patched" "length patched = length fps"
      "\<forall>i<length fps. length (patched ! i) = 17
                 \<and> from_bytes_le (slice (patched ! i) 13 16) = fps ! i + b
                 \<and> take 13 (patched ! i) = take 13 (blocks ! i)
                 \<and> drop 16 (patched ! i) = drop 16 (blocks ! i)"
    by auto
  from Cons.prems have len: "length blk = 17" by simp
  have r: "patch_offsets b (blk # blocks) (pos # fps) = Inr (set_slice blk 13 16 bs # patched)"
    using bs(1) pt(1) by simp
  have "\<forall>i<length (pos # fps). length ((set_slice blk 13 16 bs # patched) ! i) = 17
                 \<and> from_bytes_le (slice ((set_slice blk 13 16 bs # patched) ! i) 13 16) = (pos # fps) ! i + b
                 \<and> take 13 ((set_slice blk 13 16 bs # patched) ! i) = take 13 ((blk # blocks) ! i)
                 \<and> drop 16 ((set_slice blk 13 16 bs # patched) ! i) = drop 16 ((blk # blocks) ! i)"
  proof (intro allI impI)
    fix i assume i: "i < length (pos # fps)"
    show "length ((set_slice blk 13 16 bs # patched) ! i) = 17
                 \<and> from_bytes_le (slice ((set_slice blk 13 16 bs # patched) ! i) 13 16) = (pos # fps) ! i + b
                 \<and> take 13 ((set_slice blk 13 16 bs # patched) ! i) = take 13 ((blk # blocks) ! i)
                 \<and> drop 16 ((set_slice blk 13 16 bs # patched) ! i) = drop 16 ((blk # blocks) ! i)"
    proof (cases i)
      case 0
      then show ?thesis using patched_block [OF len bs(2)] bs(3) by simp
    next
      case (Suc j)
      with i pt(3) show ?thesis by simp
    qed
  qed
  with r pt(2) show ?case by simp
qed

lemma index_loop_blocks_17: "\<forall>blk \<in> set (fst (index_loop data ps)). length blk = 17"
  by (simp add: index_loop_filter index_record_length)

lemma index_loop_lengths: "length (fst (index_loop data ps)) = length (snd (index_loop data ps))"
  by (simp add: index_loop_filter)

section \<open>Properties of the index builder\<close>

text \<open>
  C1. When every adjusted offset (match position plus base offset) of the retained blocks
  is below \<open>2^24\<close>, \<open>process_archive\<close> returns an index in which, with
  \<open>base_offset = entry_count * 17 + 122\<close>, the three-byte little-endian field at bytes
  13 to 15 of every retained 17-byte record holds \<open>base_offset\<close> plus the position at
  which that block's signature occurs in the buffer left after removal.
\<close>

theorem process_archive_offsets:
  assumes d: "data = remove_files_from_archive file_content (find_all_mdmd_patterns file_content) FILES_TO_REMOVE"
    and f: "fps = snd (index_loop data (find_all_mdmd_patterns data))"
    and small: "\<forall>p \<in> set fps. p + base_offset_of (length fps) < 2 ^ 24"
  shows "\<exists>blocks. process_archive file_content = Inr (blocks, data, length fps, fps)
           \<and> length blocks = length fps
           \<and> base_offset_of (length fps) = length fps * 17 + 122
           \<and> (\<forall>i<length fps. length (blocks ! i) = 17
                 \<and> from_bytes_le (slice (blocks ! i) 13 16) = base_offset_of (length fps) + fps ! i
                 \<and> occurs_at MDMD_SIGNATURE data (fps ! i))"
proof -
  obtain ib where il: "index_loop data (find_all_mdmd_patterns data) = (ib, fps)"
    using f by (cases "index_loop data (find_all_mdmd_patterns data)") simp
  have len: "length ib = length fps"
    using index_loop_lengths [of data "find_all_mdmd_patterns data"] by (simp add: il)
  have b17: "\<forall>blk \<in> set ib. length blk = 17"
    using index_loop_blocks_17 [of data "find_all_mdmd_patterns data"] by (simp add: il)
  from patch_offsets_ok [OF len small b17]
  obtain patched where
    pt: "patch_offsets (base_offset_of (length fps)) ib fps = Inr patched" "length patched = length fps"
      "\<forall>i<length fps. length (patched ! i) = 17
                 \<and> from_bytes_le (slice (patched ! i) 13 16) = fps ! i + base_offset_of (length fps)
                 \<and> take 13 (patched ! i) = take 13 (ib ! i)
                 \<and> drop 16 (patched ! i) = drop 16 (ib ! i)"
    by blast
  have pa: "process_archive file_content = Inr (patched, data, length fps, fps)"
    unfolding process_archive_def d [symmetric] Let_def il prod.case len pt(1) by simp
  have occ: "occurs_at MDMD_SIGNATURE data (fps ! i)" if "i < length fps" for i
  proof -
    from that have "fps ! i \<in> set fps" by simp
    then have "fps ! i \<in> set (find_all_mdmd_patterns data)"
      unfolding f by (auto simp: index_loop_filter)
    then show ?thesis
      using find_all_mdmd_patterns_set [of data] by simp
  qed
  have "base_offset_of (length fps) = length fps * 17 + 122"
    by (simp add: base_offset_of_def NAME_LEN_def HEADER_SIZE_def)
  with pa pt(2,3) occ show ?thesis by (auto simp: add.commute)
qed

theorem process_archive_offsets_witness:
  "\<exists>blocks. process_archive ex_named = Inr (blocks, ex_named, 2, [0, 99])
      \<and> length blocks = 2
      \<and> from_bytes_le (slice (blocks ! 0) 13 16) = 156
      \<and> from_bytes_le (slice (blocks ! 1) 13 16) = 255
      \<and> base_offset_of 2 = 156"
proof -
  have d: "ex_named = remove_files_from_archive ex_named (find_all_mdmd_patterns ex_named) FILES_TO_REMOVE"
    by code_simp
  have f: "[0, 99] = snd (index_loop ex_named (find_all_mdmd_patterns ex_named))"
    by code_simp
  have b: "base_offset_of 2 = 156" by (simp add: base_offset_of_def NAME_LEN_def HEADER_SIZE_def)
  have small: "\<forall>p \<in> set [0, 99 :: nat]. p + base_offset_of (length [0, 99 :: nat]) < 2 ^ 24"
    by (simp add: base_offset_of_def NAME_LEN_def HEADER_SIZE_def)
  from process_archive_offsets [OF d f small] obtain blocks where
    r: "process_archive ex_named = Inr (blocks, ex_named, length [0, 99 :: nat], [0, 99])"
      "length blocks = length [0, 99 :: nat]"
      "\<forall>i<length [0, 99 :: nat]. length (blocks ! i) = 17
          \<and> from_bytes_le (slice (blocks ! i) 13 16) = base_offset_of (length [0, 99 :: nat]) + [0, 99] ! i
          \<and> occurs_at MDMD_SIGNATURE ex_named ([0, 99] ! i)"
    by blast
  have l2: "length [0, 99 :: nat] = 2" by simp
  from r(3) have "from_bytes_le (slice (blocks ! 0) 13 16) = 156"
    "from_bytes_le (slice (blocks ! 1) 13 16) = 255"
    unfolding l2 b by (simp_all add: all_less_two)
  with r(1,2) b show ?thesis unfolding l2 by blast
qed



section \<open>Facts about dates and the header\<close>

lemma div_step:
  assumes c: "0 < (c::int)"
  shows "y div c = (y - 1) div c + (if y mod c = 0 then 1 else 0)"
proof -
  define q where "q = (y - 1) div c"
  define r where "r = (y - 1) mod c"
  have r: "0 \<le> r" "r < c" using c by (simp_all add: r_def)
  have "y - 1 = c * q + r" by (simp add: q_def r_def)
  then have y: "y = (r + 1) + c * q" by simp
  have "c \<noteq> 0" using c by simp
  from div_mult_self2 [OF this, of "r + 1" q]
  have d: "y div c = q + (r + 1) div c" unfolding y [symmetric] .
  from mod_mult_self2 [of "r + 1" c q]
  have m: "y mod c = (r + 1) mod c" unfolding y [symmetric] .
  show ?thesis
  proof (cases "r + 1 < c")
    case True
    then have "(r + 1) div c = 0" "(r + 1) mod c = r + 1" using r by simp_all
    with d m r show ?thesis by (simp add: q_def)
  next
    case False
    with r have "r + 1 = c" by simp
    then have "(r + 1) div c = 1" "(r + 1) mod c = 0" using c by simp_all
    with d m show ?thesis by (simp add: q_def)
  qed
qed

lemma mod_400_100: "(y::int) mod 400 = 0 \<Longrightarrow> y mod 100 = 0"
proof -
  assume "y mod 400 = 0"
  then have "400 dvd y" by (simp add: mod_eq_0_iff_dvd)
  moreover have "(100::int) dvd 400" by simp
  ultimately have "100 dvd y" by (rule dvd_trans [rotated])
  then show ?thesis by (simp add: mod_eq_0_iff_dvd)
qed

lemma days_before_year_next: "days_before_year (y + 1) = y * 365 + y div 4 - y div 100 + y div 400"
    by (simp add: days_before_year_def)

lemma days_before_year_expand: "days_before_year y = y * 365 - 365 + (y - 1) div 4 - (y - 1) div 100 + (y - 1) div 400"
    by (simp add: days_before_year_def algebra_simps)

lemma mod_100_4: "(y::int) mod 100 = 0 \<Longrightarrow> y mod 4 = 0"
proof -
  assume "y mod 100 = 0"
  then have "100 dvd y" by (simp add: mod_eq_0_iff_dvd)
  moreover have "(4::int) dvd 100" by simp
  ultimately have "4 dvd y" by (rule dvd_trans [rotated])
  then show ?thesis by (simp add: mod_eq_0_iff_dvd)
qed

lemma leap_arith:
  fixes A B C a b c y :: int
  assumes "A = a + i" "B = b + j" "C = c + k"
  shows "y * 365 + A - B + C = (y * 365 - 365 + a - b + c) + (365 + i - j + k)"
  using assms by simp

lemma leap_count:
  "(p400 \<Longrightarrow> p100) \<Longrightarrow> (p100 \<Longrightarrow> p4) \<Longrightarrow>
   365 + (if p4 then 1 else 0) - (if p100 then 1 else 0) + (if p400 then 1 else 0)
     = (if p4 \<and> (\<not> p100 \<or> p400) then 366 else (365::int))"
  by (cases p4; cases p100; cases p400) simp_all

lemma days_before_year_Suc:
  "days_before_year (y + 1) = days_before_year y + (if is_leap y then 366 else 365)"
proof -
  let ?i = "if y mod 4 = 0 then 1 else 0 :: int"
  let ?j = "if y mod 100 = 0 then 1 else 0 :: int"
  let ?k = "if y mod 400 = 0 then 1 else 0 :: int"
  have a: "y div 4 = (y - 1) div 4 + ?i" by (rule div_step) simp
  have b: "y div 100 = (y - 1) div 100 + ?j" by (rule div_step) simp
  have c: "y div 400 = (y - 1) div 400 + ?k" by (rule div_step) simp
  have "365 + ?i - ?j + ?k = (if y mod 4 = 0 \<and> (\<not> y mod 100 = 0 \<or> y mod 400 = 0) then 366 else 365)"
    by (rule leap_count) (rule mod_400_100, assumption, rule mod_100_4, assumption)
  then have "365 + ?i - ?j + ?k = (if is_leap y then 366 else 365)"
    by (simp only: is_leap_def)
  then have "(y * 365 - 365 + (y - 1) div 4 - (y - 1) div 100 + (y - 1) div 400)
               + (365 + ?i - ?j + ?k)
             = days_before_year y + (if is_leap y then 366 else 365)"
    by (simp only: days_before_year_expand)
  with leap_arith [OF a b c, of y] show ?thesis
    by (simp only: days_before_year_next)
qed

lemma month_cases:
  assumes "1 \<le> (m::int)" "m \<le> 12"
  obtains "m = 1" | "m = 2" | "m = 3" | "m = 4" | "m = 5" | "m = 6"
    | "m = 7" | "m = 8" | "m = 9" | "m = 10" | "m = 11" | "m = 12"
proof -
  from assms have "m = 1 \<or> m = 2 \<or> m = 3 \<or> m = 4 \<or> m = 5 \<or> m = 6
    \<or> m = 7 \<or> m = 8 \<or> m = 9 \<or> m = 10 \<or> m = 11 \<or> m = 12"
    by presburger
  then show ?thesis using that by blast
qed

lemma days_before_month_next:
  assumes "1 \<le> m" "m < 12"
  shows "days_before_month y (m + 1) = days_before_month y m + days_in_month y m"
proof -
  from assms have "1 \<le> m" "m \<le> 12" by simp_all
  then show ?thesis
    by (rule month_cases) (use assms in \<open>simp_all add: days_before_month_def days_in_month_def\<close>)
qed

lemma days_in_month_ge: "28 \<le> days_in_month y m"
  by (simp add: days_in_month_def)

lemma next_day_ordinal:
  assumes "valid_datetime dt"
  shows "ordinal (next_day dt) = ordinal dt + 1"
proof -
  from assms have m: "1 \<le> month dt" "month dt \<le> 12"
    and d: "day dt \<le> days_in_month (year dt) (month dt)"
    by (simp_all add: valid_datetime_def)
  show ?thesis
  proof (cases "day dt < days_in_month (year dt) (month dt)")
    case True
    then show ?thesis by (simp add: next_day_def ordinal_def)
  next
    case False
    with d have e: "day dt = days_in_month (year dt) (month dt)" by simp
    show ?thesis
    proof (cases "month dt < 12")
      case True
      with False m days_before_month_next [of "month dt" "year dt"] e
      show ?thesis by (simp add: next_day_def ordinal_def)
    next
      case F2: False
      with m have m12: "month dt = 12" by simp
      have "days_before_month (year dt + 1) 1 = 0" by (simp add: days_before_month_def)
      moreover have "days_before_month (year dt) 12 + days_in_month (year dt) 12
                       = (if is_leap (year dt) then 366 else 365)"
        by (simp add: days_before_month_def days_in_month_def)
      ultimately show ?thesis
        using False F2 e m12 days_before_year_Suc [of "year dt"]
        by (simp add: next_day_def ordinal_def)
    qed
  qed
qed

lemma next_day_valid:
  assumes "valid_datetime dt" "year (next_day dt) \<le> 9999"
  shows "valid_datetime (next_day dt)"
  using assms days_in_month_ge [of "year dt" "month dt + 1"] days_in_month_ge [of "year dt + 1" 1]
  by (auto simp: valid_datetime_def next_day_def)

lemma next_day_year: "year (next_day dt) = year dt \<or> year (next_day dt) = year dt + 1"
  by (simp add: next_day_def)

lemma hms_recompose:
  "(r::int) div 3600 * 3600 + r mod 3600 div 60 * 60 + r mod 60 = r"
proof -
  have "r mod 60 = r mod 3600 mod 60" by (simp add: mod_mod_cancel)
  then have "r mod 3600 div 60 * 60 + r mod 60 = r mod 3600"
    by (simp only: div_mult_mod_eq)
  then have "r div 3600 * 3600 + r mod 3600 div 60 * 60 + r mod 60 = r div 3600 * 3600 + r mod 3600"
    by (simp only: add.assoc)
  then show ?thesis by (simp only: div_mult_mod_eq)
qed

lemma hms_bounds:
  assumes "0 \<le> (r::int)" "r < 86400"
  shows "0 \<le> r div 3600" "r div 3600 < 24" "0 \<le> r mod 3600 div 60" "r mod 3600 div 60 < 60"
    "0 \<le> r mod 60" "r mod 60 < 60"
  using assms by (simp_all add: div_less_iff_less_mult pos_imp_zdiv_nonneg_iff)

lemma mod_once: "(b::int) \<le> a \<Longrightarrow> a < b + b \<Longrightarrow> a mod b = a - b"
proof -
  assume a: "b \<le> a" "a < b + b"
  then have "(a - b) mod b = a - b" by (intro mod_pos_pos_trivial) simp_all
  then show ?thesis by simp
qed

lemma day_seconds_bound:
  assumes "valid_datetime dt"
  shows "0 \<le> hour dt * 3600 + minute dt * 60 + second dt"
    "hour dt * 3600 + minute dt * 60 + second dt < 86400"
  using assms by (simp_all add: valid_datetime_def)

lemma add_time_offset_correct:
  assumes v: "valid_datetime dt" and r: "add_time_offset dt = Inr dt'"
  shows "datetime_seconds dt' = datetime_seconds dt + TIME_OFFSET"
    and "valid_datetime dt'"
    and "year dt' = year dt \<or> year dt' = year dt + 1"
proof -
  define base where "base = hour dt * 3600 + minute dt * 60 + second dt"
  define secs where "secs = base + TIME_OFFSET"
  define rolled where "rolled = (if secs < 86400 then dt else next_day dt)"
  define rem where "rem = secs mod 86400"
  have off: "TIME_OFFSET = 16200" by (simp add: TIME_OFFSET_def)
  from day_seconds_bound [OF v] have base: "0 \<le> base" "base < 86400" by (simp_all add: base_def)
  from r have y: "year rolled \<le> 9999"
    and dt': "dt' = rolled\<lparr>hour := rem div 3600, minute := rem mod 3600 div 60, second := rem mod 60\<rparr>"
    unfolding add_time_offset_def Let_def base_def [symmetric] secs_def [symmetric]
      rolled_def [symmetric] rem_def [symmetric]
    by (auto split: if_splits)
  have rem: "0 \<le> rem" "rem < 86400" by (simp_all add: rem_def)
  have vr: "valid_datetime rolled"
    using v y next_day_valid [of dt] by (auto simp: rolled_def split: if_splits)
  have tm: "hour dt' * 3600 + minute dt' * 60 + second dt' = rem"
    unfolding dt' using hms_recompose [of rem] by simp
  have od: "ordinal dt' = ordinal rolled" by (simp add: dt' ordinal_def)
  have key: "ordinal rolled * 86400 + rem = ordinal dt * 86400 + secs"
  proof (cases "secs < 86400")
    case True
    moreover have "0 \<le> secs" using base off by (simp add: secs_def)
    ultimately have "rem = secs" by (simp add: rem_def)
    with True show ?thesis by (simp add: rolled_def)
  next
    case False
    have "secs < 86400 + 86400" using base off by (simp add: secs_def)
    with False have "rem = secs - 86400" unfolding rem_def by (intro mod_once) simp_all
    with False next_day_ordinal [OF v] show ?thesis by (simp add: rolled_def)
  qed
  have "datetime_seconds dt' = ordinal dt' * 86400 + (hour dt' * 3600 + minute dt' * 60 + second dt')"
    by (simp add: datetime_seconds_def)
  also have "\<dots> = ordinal dt * 86400 + secs" by (simp only: tm od key)
  also have "\<dots> = datetime_seconds dt + TIME_OFFSET"
    by (simp add: datetime_seconds_def secs_def base_def)
  finally show "datetime_seconds dt' = datetime_seconds dt + TIME_OFFSET" .
  show "valid_datetime dt'"
    using vr hms_bounds [OF rem] by (simp add: dt' valid_datetime_def)
  show "year dt' = year dt \<or> year dt' = year dt + 1"
    using next_day_year [of dt] by (auto simp: dt' rolled_def)
qed

lemma add_time_offset_defined:
  assumes "year dt \<le> 9998"
  shows "\<exists>dt'. add_time_offset dt = Inr dt'"
proof -
  have "year (next_day dt) \<le> 9999" using next_day_year [of dt] assms by auto
  with assms show ?thesis by (simp add: add_time_offset_def Let_def)
qed

lemma dos_fields_fit:
  assumes "valid_datetime md" "1980 \<le> year md" "year md \<le> 2107"
  shows "0 \<le> dos_date_of md" "dos_date_of md < 65536" "0 \<le> dos_time_of md" "dos_time_of md < 65536"
proof -
  from assms(1) have m: "1 \<le> month md" "month md \<le> 12" and d: "1 \<le> day md" "day md \<le> 31"
    and h: "0 \<le> hour md" "hour md < 24" and mi: "0 \<le> minute md" "minute md < 60"
    and s: "0 \<le> second md" "second md < 60"
    by (auto simp: valid_datetime_def days_in_month_def split: if_splits)
  have p: "0 \<le> push_bit 9 (year md - 1980)" "push_bit 9 (year md - 1980) < 2 ^ 16"
    "0 \<le> push_bit 5 (month md)" "push_bit 5 (month md) < 2 ^ 16" "day md < 2 ^ 16"
    using assms(2,3) m d by (simp_all add: push_bit_int_def)
  have q: "0 \<le> push_bit 11 (hour md)" "push_bit 11 (hour md) < 2 ^ 16"
    "0 \<le> push_bit 5 (minute md)" "push_bit 5 (minute md) < 2 ^ 16"
    "0 \<le> second md div 2" "second md div 2 < 2 ^ 16"
    using h mi s by (simp_all add: push_bit_int_def)
  show "0 \<le> dos_date_of md" using p d by (simp add: dos_date_of_def)
  have "push_bit 9 (year md - 1980) OR (push_bit 5 (month md) OR day md) < 2 ^ 16"
    using p by (intro OR_upper) simp_all
  then show "dos_date_of md < 65536" by (simp add: dos_date_of_def or.assoc)
  show "0 \<le> dos_time_of md" using q by (simp add: dos_time_of_def)
  have "push_bit 11 (hour md) OR (push_bit 5 (minute md) OR second md div 2) < 2 ^ 16"
    using q by (intro OR_upper) simp_all
  then show "dos_time_of md < 65536" by (simp add: dos_time_of_def or.assoc)
qed

lemma replicate_header: "replicate 122 (0::byte) = [0, 0, 0, 0, 0, 0, 0, 0, 0, 0, 0, 0, 0, 0, 0, 0, 0, 0, 0, 0, 0, 0, 0, 0, 0, 0, 0, 0, 0, 0, 0, 0, 0, 0, 0, 0, 0, 0, 0, 0, 0, 0, 0, 0, 0, 0, 0, 0, 0, 0, 0, 0, 0, 0, 0, 0, 0, 0, 0, 0, 0, 0, 0, 0, 0, 0, 0, 0, 0, 0, 0, 0, 0, 0, 0, 0, 0, 0, 0, 0, 0, 0, 0, 0, 0, 0, 0, 0, 0, 0, 0, 0, 0, 0, 0, 0, 0, 0, 0, 0, 0, 0, 0, 0, 0, 0, 0, 0, 0, 0, 0, 0, 0, 0, 0, 0, 0, 0, 0, 0, 0, 0]"
  by code_simp

lemma to_bytes_le_2:
  "to_bytes_le v 2 = (if v < 0 \<or> 65536 \<le> v then Inl OverflowError
                      else Inr [word_of_int v, word_of_int (v div 256)])"
proof -
  have "[0..<2] = [0, 1 :: nat]" by code_simp
  then show ?thesis by (simp add: to_bytes_le_def)
qed

lemma header_writes:
  "(let header = replicate HEADER_SIZE 0;
          header = set_slice header 0x00 0x04 MDMD_SIGNATURE;
          header = header[0x04 := 0x0A];
          header = header[0x05 := 0x01];
          header = set_slice header 0x06 0x08 [0x7A, 0];
          header = set_slice header 0x0A 0x0C [c0, c1];
          header = set_slice header 0x19 0x1B [t0, t1];
          header = set_slice header 0x1D 0x1F [t0, t1];
          header = set_slice header 0x23 0x25 [m0, m1];
          header = set_slice header 0x25 0x27 [d0, d1];
          header = header[0x29 := 0x07];
          header = set_slice header 0x2A 0x31 INDEX_MARKER;
          header = fold (\<lambda>i h. h[i := 0x20]) [0x31..<0x36] header;
          header = header[0x36 := 0x00];
          header = fold (\<lambda>i h. h[i := 0x20]) [0x37..<0x7A] header
    in header) = header_layout c0 c1 t0 t1 m0 m1 d0 d1"
  unfolding Let_def HEADER_SIZE_def replicate_header set_slice_def
    MDMD_SIGNATURE_def INDEX_MARKER_def header_layout_def
  by simp

lemma header_size_bytes: "to_bytes_le (int HEADER_SIZE) 2 = Inr [0x7A, 0]"
  by (simp add: to_bytes_le_2 HEADER_SIZE_def)

lemma to_bytes_le_2_Inr:
  "to_bytes_le v 2 = Inr bs \<longleftrightarrow>
     0 \<le> v \<and> v < 65536 \<and> bs = [word_of_int v, word_of_int (v div 256)]"
  by (auto simp: to_bytes_le_2)

lemma header_built:
  assumes "add_time_offset mt = Inr md" "0 \<le> dos_time_of md" "dos_time_of md < 65536"
    "0 \<le> dos_date_of md" "dos_date_of md < 65536" "int (fc * NAME_LEN) < 65536"
  shows "build_header_dynamically fc mt
           = Inr (header_layout (word_of_int (int fc)) (word_of_int (int fc div 256))
                   (word_of_int (int (fc * NAME_LEN))) (word_of_int (int (fc * NAME_LEN) div 256))
                   (word_of_int (dos_time_of md)) (word_of_int (dos_time_of md div 256))
                   (word_of_int (dos_date_of md)) (word_of_int (dos_date_of md div 256)),
                 dos_time_of md, dos_date_of md)"
proof -
  from assms(6) have "int fc < 65536" by (simp add: NAME_LEN_def)
  then have 1: "to_bytes_le (int fc) 2 = Inr [word_of_int (int fc), word_of_int (int fc div 256)]"
    by (simp add: to_bytes_le_2_Inr)
  have 2: "to_bytes_le (int (fc * NAME_LEN)) 2
             = Inr [word_of_int (int (fc * NAME_LEN)), word_of_int (int (fc * NAME_LEN) div 256)]"
    using assms(6) by (simp add: to_bytes_le_2_Inr)
  have 3: "to_bytes_le (dos_time_of md) 2
             = Inr [word_of_int (dos_time_of md), word_of_int (dos_time_of md div 256)]"
    using assms(2,3) by (simp add: to_bytes_le_2_Inr)
  have 4: "to_bytes_le (dos_date_of md) 2
             = Inr [word_of_int (dos_date_of md), word_of_int (dos_date_of md div 256)]"
    using assms(4,5) by (simp add: to_bytes_le_2_Inr)
  show ?thesis
    unfolding build_header_dynamically_def Let_def header_size_bytes sum.case 1 2 assms(1) 3 4
    by (simp only: header_writes [unfolded Let_def])
qed

lemma header_eval:
  assumes "build_header_dynamically fc mt = Inr (h, tm, dd)"
  shows "\<exists>md. add_time_offset mt = Inr md \<and> tm = dos_time_of md \<and> dd = dos_date_of md
           \<and> 0 \<le> tm \<and> tm < 65536 \<and> 0 \<le> dd \<and> dd < 65536
           \<and> int fc < 65536 \<and> int (fc * NAME_LEN) < 65536
           \<and> h = header_layout (word_of_int (int fc)) (word_of_int (int fc div 256))
                   (word_of_int (int (fc * NAME_LEN))) (word_of_int (int (fc * NAME_LEN) div 256))
                   (word_of_int tm) (word_of_int (tm div 256))
                   (word_of_int dd) (word_of_int (dd div 256))"
proof -
  note d = build_header_dynamically_def Let_def header_size_bytes sum.case
  obtain c where 1: "to_bytes_le (int fc) 2 = Inr c"
  proof (cases "to_bytes_le (int fc) 2")
    case (Inl e)
    then have "build_header_dynamically fc mt = Inl e" by (simp only: d)
    with assms show ?thesis by simp
  qed
  obtain t where 2: "to_bytes_le (int (fc * NAME_LEN)) 2 = Inr t"
  proof (cases "to_bytes_le (int (fc * NAME_LEN)) 2")
    case (Inl e)
    then have "build_header_dynamically fc mt = Inl e" by (simp only: d 1)
    with assms show ?thesis by simp
  qed
  obtain md where 3: "add_time_offset mt = Inr md"
  proof (cases "add_time_offset mt")
    case (Inl e)
    then have "build_header_dynamically fc mt = Inl e" by (simp only: d 1 2)
    with assms show ?thesis by simp
  qed
  obtain tb where 4: "to_bytes_le (dos_time_of md) 2 = Inr tb"
  proof (cases "to_bytes_le (dos_time_of md) 2")
    case (Inl e)
    then have "build_header_dynamically fc mt = Inl e" by (simp only: d 1 2 3)
    with assms show ?thesis by simp
  qed
  obtain db where 5: "to_bytes_le (dos_date_of md) 2 = Inr db"
  proof (cases "to_bytes_le (dos_date_of md) 2")
    case (Inl e)
    then have "build_header_dynamically fc mt = Inl e" by (simp only: d 1 2 3 4)
    with assms show ?thesis by simp
  qed
  from 1 2 4 5 have b: "int fc < 65536" "int (fc * NAME_LEN) < 65536"
    "0 \<le> dos_time_of md" "dos_time_of md < 65536" "0 \<le> dos_date_of md" "dos_date_of md < 65536"
    by (simp_all only: to_bytes_le_2_Inr)
  from header_built [OF 3 b(3-6) b(2)] assms
  have "h = header_layout (word_of_int (int fc)) (word_of_int (int fc div 256))
                   (word_of_int (int (fc * NAME_LEN))) (word_of_int (int (fc * NAME_LEN) div 256))
                   (word_of_int (dos_time_of md)) (word_of_int (dos_time_of md div 256))
                   (word_of_int (dos_date_of md)) (word_of_int (dos_date_of md div 256))"
    and "tm = dos_time_of md" and "dd = dos_date_of md"
    by simp_all
  with 3 b show ?thesis by blast
qed

lemma header_layout_fields:
  "length (header_layout c0 c1 t0 t1 m0 m1 d0 d1) = 122"
  "slice (header_layout c0 c1 t0 t1 m0 m1 d0 d1) 0x0A 0x0C = [c0, c1]"
  "slice (header_layout c0 c1 t0 t1 m0 m1 d0 d1) 0x19 0x1B = [t0, t1]"
  "slice (header_layout c0 c1 t0 t1 m0 m1 d0 d1) 0x1D 0x1F = [t0, t1]"
  "slice (header_layout c0 c1 t0 t1 m0 m1 d0 d1) 0x23 0x25 = [m0, m1]"
  "slice (header_layout c0 c1 t0 t1 m0 m1 d0 d1) 0x25 0x27 = [d0, d1]"
  by (simp_all add: header_layout_def slice_def)

lemma from_bytes_le_u16:
  assumes "0 \<le> v" "v < 65536"
  shows "int (from_bytes_le [word_of_int v, word_of_int (v div 256)]) = v"
proof -
  from assms have "to_bytes_le v 2 = Inr [word_of_int v, word_of_int (v div 256)]"
    by (simp add: to_bytes_le_2_Inr)
  then show ?thesis by (rule to_bytes_le_roundtrip)
qed

lemma timestamp_fits:
  assumes "valid_datetime mt" "1980 \<le> year mt" "year mt \<le> 2106"
  shows "\<exists>md. add_time_offset mt = Inr md \<and> 0 \<le> dos_time_of md \<and> dos_time_of md < 65536
           \<and> 0 \<le> dos_date_of md \<and> dos_date_of md < 65536"
proof -
  from assms(3) have "year mt \<le> 9998" by simp
  from add_time_offset_defined [OF this] obtain md where md: "add_time_offset mt = Inr md" ..
  from add_time_offset_correct [OF assms(1) md] assms(2,3)
  have "valid_datetime md" "1980 \<le> year md" "year md \<le> 2107" by auto
  from dos_fields_fit [OF this] md show ?thesis by blast
qed

lemma valid_ex_mtime: "valid_datetime ex_mtime"
  by (simp add: valid_datetime_def ex_mtime_def days_in_month_def)

section \<open>Properties of the header\<close>

text \<open>
  C6. Every header that \<open>build_header_dynamically\<close> returns belongs to an entry count
  with \<open>entry_count * 17 < 2^16\<close>, is 122 bytes long, and holds the entry count as a
  little-endian 16-bit value at offset \<open>0x0A\<close> and the table size
  \<open>entry_count * 17\<close> at offsets \<open>0x19\<close> and \<open>0x1D\<close>, the two table-size fields
  being equal; for three entries these bytes are \<open>03 00\<close>, \<open>33 00\<close> and \<open>33 00\<close>.
  For every such entry count the header is built when the modification time is a date of the
  years 1980 to 2106, which the DOS date field can hold after the correction.
\<close>

theorem header_count_and_table_size:
  "(build_header_dynamically fc mt = Inr (h, tm, dd) \<longrightarrow>
      fc * 17 < 2 ^ 16 \<and> length h = 122
      \<and> from_bytes_le (slice h 0x0A 0x0C) = fc
      \<and> from_bytes_le (slice h 0x19 0x1B) = fc * 17
      \<and> from_bytes_le (slice h 0x1D 0x1F) = fc * 17
      \<and> slice h 0x1D 0x1F = slice h 0x19 0x1B
      \<and> (fc = 3 \<longrightarrow> slice h 0x0A 0x0C = [0x03, 0x00]
            \<and> slice h 0x19 0x1B = [0x33, 0x00] \<and> slice h 0x1D 0x1F = [0x33, 0x00]))
   \<and> (fc * 17 < 2 ^ 16 \<and> valid_datetime mt \<and> 1980 \<le> year mt \<and> year mt \<le> 2106 \<longrightarrow>
        (\<exists>h' tm' dd'. build_header_dynamically fc mt = Inr (h', tm', dd')))"
proof (intro conjI impI)
  assume b: "build_header_dynamically fc mt = Inr (h, tm, dd)"
  let ?h = "header_layout (word_of_int (int fc)) (word_of_int (int fc div 256))
                   (word_of_int (int (fc * NAME_LEN))) (word_of_int (int (fc * NAME_LEN) div 256))
                   (word_of_int tm) (word_of_int (tm div 256))
                   (word_of_int dd) (word_of_int (dd div 256))"
  from header_eval [OF b] have c: "int fc < 65536" and t: "int (fc * NAME_LEN) < 65536"
    and h: "h = ?h"
    by blast+
  from t show "fc * 17 < 2 ^ 16" by (simp add: NAME_LEN_def)
  show "length h = 122" unfolding h by (rule header_layout_fields)
  show "from_bytes_le (slice h 0x0A 0x0C) = fc"
    unfolding h using from_bytes_le_u16 [of "int fc"] c by (simp only: header_layout_fields) simp
  show f2: "from_bytes_le (slice h 0x19 0x1B) = fc * 17"
    unfolding h using from_bytes_le_u16 [of "int (fc * NAME_LEN)"] t
    by (simp only: header_layout_fields) (simp add: NAME_LEN_def)
  show f3: "slice h 0x1D 0x1F = slice h 0x19 0x1B"
    unfolding h by (simp only: header_layout_fields)
  from f2 f3 show "from_bytes_le (slice h 0x1D 0x1F) = fc * 17" by simp
  assume "fc = 3"
  then show "slice h 0x0A 0x0C = [0x03, 0x00]" "slice h 0x19 0x1B = [0x33, 0x00]"
    "slice h 0x1D 0x1F = [0x33, 0x00]"
    unfolding h by (simp_all only: header_layout_fields) (simp_all add: NAME_LEN_def)
next
  assume a: "fc * 17 < 2 ^ 16 \<and> valid_datetime mt \<and> 1980 \<le> year mt \<and> year mt \<le> 2106"
  then have "valid_datetime mt" "1980 \<le> year mt" "year mt \<le> 2106" by simp_all
  from timestamp_fits [OF this] obtain md where
    md: "add_time_offset mt = Inr md" "0 \<le> dos_time_of md" "dos_time_of md < 65536"
      "0 \<le> dos_date_of md" "dos_date_of md < 65536"
    by blast
  from a have t: "int (fc * NAME_LEN) < 65536" by (simp add: NAME_LEN_def)
  from header_built [OF md t]
  show "\<exists>h' tm' dd'. build_header_dynamically fc mt = Inr (h', tm', dd')" by blast
qed

theorem header_count_and_table_size_witness:
  "\<exists>h tm dd. build_header_dynamically 3 ex_mtime = Inr (h, tm, dd) \<and> length h = 122
      \<and> from_bytes_le (slice h 0x0A 0x0C) = 3
      \<and> from_bytes_le (slice h 0x19 0x1B) = 51
      \<and> slice h 0x0A 0x0C = [0x03, 0x00]
      \<and> slice h 0x19 0x1B = [0x33, 0x00] \<and> slice h 0x1D 0x1F = [0x33, 0x00]"
proof -
  have "(3::nat) * 17 < 2 ^ 16 \<and> valid_datetime ex_mtime \<and> 1980 \<le> year ex_mtime \<and> year ex_mtime \<le> 2106"
    using valid_ex_mtime by (simp add: ex_mtime_def)
  with header_count_and_table_size [of 3 ex_mtime] obtain h tm dd where
    b: "build_header_dynamically 3 ex_mtime = Inr (h, tm, dd)"
    by blast
  from header_count_and_table_size [of 3 ex_mtime h tm dd] b show ?thesis by auto
qed

text \<open>
  C7. Whenever a header is built, the corrected time is the modification time plus exactly
  4 hours 30 minutes, the DOS date is \<open>((year - 1980) << 9) | (month << 5) | day\<close> and the
  DOS time \<open>(hour << 11) | (minute << 5) | (second div 2)\<close> of the corrected time, stored
  little-endian at offsets \<open>0x25\<close> and \<open>0x23\<close>. For 2023-06-15 14:30:10 the corrected
  time is 2023-06-15 19:00:10 and the DOS fields are those of scenario D.
\<close>

theorem header_timestamp:
  "(valid_datetime mt \<and> build_header_dynamically fc mt = Inr (h, tm, dd) \<longrightarrow>
      (\<exists>md. add_time_offset mt = Inr md
         \<and> datetime_seconds md = datetime_seconds mt + (4 * 3600 + 30 * 60)
         \<and> valid_datetime md
         \<and> dd = push_bit 9 (year md - 1980) OR push_bit 5 (month md) OR day md
         \<and> tm = push_bit 11 (hour md) OR push_bit 5 (minute md) OR (second md div 2)
         \<and> int (from_bytes_le (slice h 0x25 0x27)) = dd
         \<and> int (from_bytes_le (slice h 0x23 0x25)) = tm))
   \<and> add_time_offset \<lparr>year = 2023, month = 6, day = 15, hour = 14, minute = 30, second = 10\<rparr>
        = Inr \<lparr>year = 2023, month = 6, day = 15, hour = 19, minute = 0, second = 10\<rparr>
   \<and> (fc * 17 < 2 ^ 16 \<longrightarrow>
        (\<exists>h'. build_header_dynamically fc
                 \<lparr>year = 2023, month = 6, day = 15, hour = 14, minute = 30, second = 10\<rparr>
               = Inr (h', push_bit 11 19 OR push_bit 5 0 OR 5,
                      push_bit 9 (2023 - 1980) OR push_bit 5 6 OR 15)))"
proof (intro conjI impI)
  assume a: "valid_datetime mt \<and> build_header_dynamically fc mt = Inr (h, tm, dd)"
  from header_eval [of fc mt h tm dd] a obtain md where
    md: "add_time_offset mt = Inr md" "tm = dos_time_of md" "dd = dos_date_of md"
      "0 \<le> tm" "tm < 65536" "0 \<le> dd" "dd < 65536"
    and h: "h = header_layout (word_of_int (int fc)) (word_of_int (int fc div 256))
                   (word_of_int (int (fc * NAME_LEN))) (word_of_int (int (fc * NAME_LEN) div 256))
                   (word_of_int tm) (word_of_int (tm div 256))
                   (word_of_int dd) (word_of_int (dd div 256))"
    by blast
  from a have v: "valid_datetime mt" ..
  note c = add_time_offset_correct [OF v md(1)]
  have s1: "datetime_seconds md = datetime_seconds mt + (4 * 3600 + 30 * 60)"
    using c(1) by (simp add: TIME_OFFSET_def)
  have s2: "dd = push_bit 9 (year md - 1980) OR push_bit 5 (month md) OR day md"
    by (simp add: md(3) dos_date_of_def)
  have s3: "tm = push_bit 11 (hour md) OR push_bit 5 (minute md) OR (second md div 2)"
    by (simp add: md(2) dos_time_of_def)
  have s4: "int (from_bytes_le (slice h 0x25 0x27)) = dd"
    unfolding h header_layout_fields using md(6,7) by (rule from_bytes_le_u16)
  have s5: "int (from_bytes_le (slice h 0x23 0x25)) = tm"
    unfolding h header_layout_fields using md(4,5) by (rule from_bytes_le_u16)
  from md(1) s1 c(2) s2 s3 s4 s5
  show "\<exists>md. add_time_offset mt = Inr md
         \<and> datetime_seconds md = datetime_seconds mt + (4 * 3600 + 30 * 60)
         \<and> valid_datetime md
         \<and> dd = push_bit 9 (year md - 1980) OR push_bit 5 (month md) OR day md
         \<and> tm = push_bit 11 (hour md) OR push_bit 5 (minute md) OR (second md div 2)
         \<and> int (from_bytes_le (slice h 0x25 0x27)) = dd
         \<and> int (from_bytes_le (slice h 0x23 0x25)) = tm"
    by blast
next
  show "add_time_offset \<lparr>year = 2023, month = 6, day = 15, hour = 14, minute = 30, second = 10\<rparr>
        = Inr \<lparr>year = 2023, month = 6, day = 15, hour = 19, minute = 0, second = 10\<rparr>"
    by (simp add: add_time_offset_def TIME_OFFSET_def Let_def)
next
  assume fc: "fc * 17 < 2 ^ 16"
  let ?mt = "\<lparr>year = 2023, month = 6, day = 15, hour = 14, minute = 30, second = 10\<rparr>"
  let ?md = "\<lparr>year = 2023, month = 6, day = 15, hour = 19, minute = 0, second = 10\<rparr>"
  have a: "add_time_offset ?mt = Inr ?md"
    by (simp add: add_time_offset_def TIME_OFFSET_def Let_def)
  have v: "valid_datetime ?md" by (simp add: valid_datetime_def days_in_month_def)
  have f: "0 \<le> dos_time_of ?md" "dos_time_of ?md < 65536" "0 \<le> dos_date_of ?md" "dos_date_of ?md < 65536"
    using dos_fields_fit [OF v] by simp_all
  from fc have t: "int (fc * NAME_LEN) < 65536" by (simp add: NAME_LEN_def)
  have e1: "dos_time_of ?md = push_bit 11 19 OR push_bit 5 0 OR 5"
    by (simp add: dos_time_of_def)
  have e2: "dos_date_of ?md = push_bit 9 (2023 - 1980) OR push_bit 5 6 OR 15"
    by (simp add: dos_date_of_def)
  from header_built [OF a f t]
  show "\<exists>h'. build_header_dynamically fc ?mt
               = Inr (h', push_bit 11 19 OR push_bit 5 0 OR 5,
                      push_bit 9 (2023 - 1980) OR push_bit 5 6 OR 15)"
    unfolding e1 e2 by blast
qed

theorem header_timestamp_witness:
  "valid_datetime ex_mtime
   \<and> build_header_dynamically 3 ex_mtime
        = Inr (header_layout 3 0 0x33 0 0x05 0x98 0xCF 0x56, 38917, 22223)
   \<and> (\<exists>md. add_time_offset ex_mtime = Inr md
         \<and> datetime_seconds md = datetime_seconds ex_mtime + 16200
         \<and> 22223 = push_bit 9 (year md - 1980) OR push_bit 5 (month md) OR day md
         \<and> 38917 = push_bit 11 (hour md) OR push_bit 5 (minute md) OR (second md div 2))
   \<and> from_bytes_le (slice (header_layout 3 0 0x33 0 0x05 0x98 0xCF 0x56) 0x25 0x27) = 22223
   \<and> from_bytes_le (slice (header_layout 3 0 0x33 0 0x05 0x98 0xCF 0x56) 0x23 0x25) = 38917"
proof -
  have b: "build_header_dynamically 3 ex_mtime
        = Inr (header_layout 3 0 0x33 0 0x05 0x98 0xCF 0x56, 38917, 22223)"
    by code_simp
  from header_timestamp [of ex_mtime 3 "header_layout 3 0 0x33 0 0x05 0x98 0xCF 0x56" 38917 22223]
    valid_ex_mtime b
  obtain md where md: "add_time_offset ex_mtime = Inr md"
         "datetime_seconds md = datetime_seconds ex_mtime + (4 * 3600 + 30 * 60)"
         "22223 = push_bit 9 (year md - 1980) OR push_bit 5 (month md) OR day md"
         "38917 = push_bit 11 (hour md) OR push_bit 5 (minute md) OR (second md div 2)"
         "int (from_bytes_le (slice (header_layout 3 0 0x33 0 0x05 0x98 0xCF 0x56) 0x25 0x27)) = 22223"
         "int (from_bytes_le (slice (header_layout 3 0 0x33 0 0x05 0x98 0xCF 0x56) 0x23 0x25)) = 38917"
    by blast
  from md(5,6) have
    "from_bytes_le (slice (header_layout 3 0 0x33 0 0x05 0x98 0xCF 0x56) 0x25 0x27) = 22223"
    "from_bytes_le (slice (header_layout 3 0 0x33 0 0x05 0x98 0xCF 0x56) 0x23 0x25) = 38917"
    by linarith+
  moreover from md(2) have "datetime_seconds md = datetime_seconds ex_mtime + 16200" by simp
  ultimately show ?thesis using valid_ex_mtime b md(1,3,4) by blast
qed

section \<open>Facts about the path rewriter\<close>

lemma take_pad_spaces: "n \<le> pos \<Longrightarrow> take n (pad_spaces data pos) = take n data"
proof (induction data pos rule: pad_spaces.induct)
  case (1 data pos)
  show ?case
  proof (cases "pos < length data \<and> data ! pos \<noteq> 0x20")
    case True
    with 1 have "take n (pad_spaces (data[pos := 0x20]) (pos + 1)) = take n (data[pos := 0x20])"
      by simp
    with True "1.prems" show ?thesis by (simp add: pad_spaces.simps [of data pos])
  next
    case False
    then have "pad_spaces data pos = data" by (subst pad_spaces.simps) auto
    then show ?thesis by simp
  qed
qed

lemma take_set_slice: "n \<le> s \<Longrightarrow> s \<le> length xs \<Longrightarrow> take n (set_slice xs s e ys) = take n xs"
  by (simp add: set_slice_def)

lemma replace_loop_frame:
  "n \<le> search_pos \<Longrightarrow>
   take n (fst (replace_loop data path_segment search_pos done_count warnings)) = take n data"
proof (induction data path_segment search_pos done_count warnings rule: replace_loop.induct)
  case (1 data path_segment search_pos total_replacements warnings)
  show ?case
  proof (cases "py_find data MDMD_FILE_HEADER_PATTERN search_pos")
    case None
    then show ?thesis by (simp add: replace_loop.simps [of data path_segment search_pos total_replacements warnings])
  next
    case (Some pattern_pos)
    let ?ps = "pattern_pos + PATH_OFFSET_IN_HEADER"
    let ?pe = "?ps + length path_segment"
    from py_find_ge [OF Some] "1.prems" have n: "n \<le> pattern_pos + 1" "n \<le> ?ps" "n \<le> ?pe"
      by simp_all
    show ?thesis
    proof (cases "length data \<le> ?pe")
      case True
      with Some "1.IH"(1) [OF Some refl refl True n(1)] show ?thesis
        by (simp add: replace_loop.simps [of data path_segment search_pos total_replacements warnings] Let_def)
    next
      case False
      then have "?ps \<le> length data" by simp
      with Some False "1.IH"(2) [OF Some refl refl False n(1)] n show ?thesis
        by (simp add: replace_loop.simps [of data path_segment search_pos total_replacements warnings] Let_def take_pad_spaces take_set_slice)
    qed
  qed
qed

lemma header_no_pattern_start:
  "c0 \<noteq> 0 \<or> c1 \<noteq> 0 \<Longrightarrow> no_pattern_start (header_layout c0 c1 t0 t1 m0 m1 d0 d1)"
  by (simp add: header_layout_def MDMD_FILE_HEADER_PATTERN_def)

lemma no_pattern_start_drop:
  "no_pattern_start H \<Longrightarrow> i < length H \<Longrightarrow> \<not> prefix MDMD_FILE_HEADER_PATTERN (drop i (H @ rest))"
proof (induction H arbitrary: i)
  case Nil
  then show ?case by simp
next
  case (Cons x xs)
  show ?case
  proof (cases i)
    case 0
    from Cons.prems(1) have "\<not> prefix MDMD_FILE_HEADER_PATTERN (x # xs)"
      "\<not> prefix (x # xs) MDMD_FILE_HEADER_PATTERN"
      by simp_all
    then have "\<not> prefix MDMD_FILE_HEADER_PATTERN ((x # xs) @ rest)"
      unfolding prefix_append by (auto simp: prefix_def)
    with 0 show ?thesis by simp
  next
    case (Suc j)
    with Cons.prems have "no_pattern_start xs" "j < length xs" by simp_all
    from Cons.IH [OF this] Suc show ?thesis by simp
  qed
qed

lemma replace_loop_frame_first:
  assumes "\<And>pp. py_find data MDMD_FILE_HEADER_PATTERN search_pos = Some pp \<Longrightarrow> n \<le> pp"
  shows "take n (fst (replace_loop data path_segment search_pos done_count warnings)) = take n data"
proof (cases "py_find data MDMD_FILE_HEADER_PATTERN search_pos")
  case None
  then show ?thesis by (simp add: replace_loop.simps [of data path_segment search_pos done_count warnings])
next
  case (Some pattern_pos)
  let ?ps = "pattern_pos + PATH_OFFSET_IN_HEADER"
  let ?pe = "?ps + length path_segment"
  from assms [OF Some] have n: "n \<le> pattern_pos + 1" "n \<le> ?ps" "n \<le> ?pe" by simp_all
  show ?thesis
  proof (cases "length data \<le> ?pe")
    case True
    with Some replace_loop_frame [OF n(1)] show ?thesis
      by (simp add: replace_loop.simps [of data path_segment search_pos done_count warnings] Let_def)
  next
    case False
    then have "?ps \<le> length data" by simp
    with Some False replace_loop_frame [OF n(1)] n show ?thesis
      by (simp add: replace_loop.simps [of data path_segment search_pos done_count warnings] Let_def take_pad_spaces take_set_slice)
  qed
qed

lemma count_bytes_nonzero:
  assumes "0 < fc" "int fc < 65536"
  shows "(word_of_int (int fc) :: byte) \<noteq> 0 \<or> (word_of_int (int fc div 256) :: byte) \<noteq> 0"
proof (rule ccontr)
  assume "\<not> ?thesis"
  then have z: "(word_of_int (int fc) :: byte) = 0" "(word_of_int (int fc div 256) :: byte) = 0"
    by simp_all
  from from_bytes_le_u16 [of "int fc"] assms(2)
  have "int (from_bytes_le [word_of_int (int fc), word_of_int (int fc div 256) :: byte]) = int fc"
    by simp
  then have "int fc = 0" unfolding z by (simp add: from_bytes_le_def)
  with assms(1) show False by simp
qed

lemma set_slice_append:
  "s \<le> e \<Longrightarrow> e \<le> length H \<Longrightarrow> set_slice (H @ rest) s e ys = set_slice H s e ys @ rest"
  by (simp add: set_slice_def)

lemma default_segment: "path_segment_of DEFAULT_TARGET_PATH = Inr default_path_segment"
  by code_simp

lemma zero_header_starts:
  "prefix MDMD_FILE_HEADER_PATTERN (header_layout 0 0 0 0 m0 m1 d0 d1 @ rest)"
  by (simp add: header_layout_def MDMD_FILE_HEADER_PATTERN_def)

lemma zero_header_patched_facts:
  "length (set_slice (header_layout 0 0 0 0 m0 m1 d0 d1) 0x36 0x45 default_path_segment) = 122"
  "set_slice (header_layout 0 0 0 0 m0 m1 d0 d1) 0x36 0x45 default_path_segment ! 69 = 0x20"
  "no_pattern_start (tl (set_slice (header_layout 0 0 0 0 m0 m1 d0 d1) 0x36 0x45 default_path_segment))"
  "slice (set_slice (header_layout 0 0 0 0 m0 m1 d0 d1) 0x36 0x45 default_path_segment) 0x36 0x45
     = default_path_segment"
  "slice (header_layout 0 0 0 0 m0 m1 d0 d1) 0x36 0x45
     = [0x00, 0x20, 0x20, 0x20, 0x20, 0x20, 0x20, 0x20, 0x20, 0x20, 0x20, 0x20, 0x20, 0x20, 0x20]"
  by (simp_all add: set_slice_def slice_def header_layout_def default_path_segment_def
        MDMD_FILE_HEADER_PATTERN_def)

lemma zero_header_loop:
  fixes rest :: "byte list" and m0 m1 d0 d1 :: byte
  defines "h0 \<equiv> header_layout 0 0 0 0 m0 m1 d0 d1"
  defines "h1 \<equiv> set_slice (header_layout 0 0 0 0 m0 m1 d0 d1) 0x36 0x45 default_path_segment"
  shows "take 122 (fst (replace_loop (h0 @ rest) default_path_segment 0 0 [])) = h1"
proof -
  have len0: "length h0 = 122" unfolding h0_def by (rule header_layout_fields)
  have len1: "length h1 = 122" unfolding h1_def by (rule zero_header_patched_facts)
  have seg: "length default_path_segment = 15" by (simp add: default_path_segment_def)
  have "find_sub MDMD_FILE_HEADER_PATTERN (h0 @ rest) = Some 0"
    using zero_header_starts [of m0 m1 d0 d1 rest] unfolding h0_def [symmetric]
    by (cases "h0 @ rest") (simp_all add: MDMD_FILE_HEADER_PATTERN_def)
  then have f: "py_find (h0 @ rest) MDMD_FILE_HEADER_PATTERN 0 = Some 0"
    by (simp add: py_find_def)
  have w: "set_slice (h0 @ rest) 0x36 0x45 default_path_segment = h1 @ rest"
    unfolding h0_def h1_def by (rule set_slice_append) (simp_all add: header_layout_fields)
  have "(h1 @ rest) ! 69 = 0x20"
    using zero_header_patched_facts(2) [of m0 m1 d0 d1] len1 by (simp add: nth_append h1_def)
  then have p: "pad_spaces (h1 @ rest) 69 = h1 @ rest"
    by (subst pad_spaces.simps) simp
  have step: "replace_loop (h0 @ rest) default_path_segment 0 0 []
                = replace_loop (h1 @ rest) default_path_segment 1 1 []"
    by (subst replace_loop.simps) (simp add: f Let_def PATH_OFFSET_IN_HEADER_def seg len0 w p)
  have "take 122 (fst (replace_loop (h1 @ rest) default_path_segment 1 1 [])) = take 122 (h1 @ rest)"
  proof (rule replace_loop_frame_first)
    fix pp
    assume a: "py_find (h1 @ rest) MDMD_FILE_HEADER_PATTERN 1 = Some pp"
    show "122 \<le> pp"
    proof (rule ccontr)
      assume "\<not> 122 \<le> pp"
      with py_find_ge [OF a] have pp: "1 \<le> pp" "pp - 1 < length (tl h1)" by (simp_all add: len1)
      have "h1 \<noteq> []" using len1 by auto
      then have "drop pp (h1 @ rest) = drop (pp - 1) (tl h1 @ rest)"
        using pp(1) by (cases h1; cases pp) simp_all
      moreover have "no_pattern_start (tl h1)"
        unfolding h1_def by (rule zero_header_patched_facts)
      ultimately have "\<not> prefix MDMD_FILE_HEADER_PATTERN (drop pp (h1 @ rest))"
        using no_pattern_start_drop [OF _ pp(2), of rest] by simp
      with py_find_Some(3) [OF a] show False by simp
    qed
  qed
  with step len1 show ?thesis by simp
qed

lemma nonzero_header_loop:
  assumes "c0 \<noteq> 0 \<or> c1 \<noteq> 0"
  shows "take 122 (fst (replace_loop (header_layout c0 c1 t0 t1 m0 m1 d0 d1 @ rest) path_segment 0 0 []))
           = header_layout c0 c1 t0 t1 m0 m1 d0 d1"
    and "i < 122 \<Longrightarrow> \<not> occurs_at MDMD_FILE_HEADER_PATTERN (header_layout c0 c1 t0 t1 m0 m1 d0 d1 @ rest) i"
proof -
  let ?h = "header_layout c0 c1 t0 t1 m0 m1 d0 d1"
  have len: "length ?h = 122" by (rule header_layout_fields)
  have clean: "no_pattern_start ?h" using assms by (rule header_no_pattern_start)
  have ne: "MDMD_FILE_HEADER_PATTERN \<noteq> []" by (simp add: MDMD_FILE_HEADER_PATTERN_def)
  have no: "\<not> prefix MDMD_FILE_HEADER_PATTERN (drop j (?h @ rest))" if "j < 122" for j
    using no_pattern_start_drop [OF clean, of j rest] that len by simp
  show "i < 122 \<Longrightarrow> \<not> occurs_at MDMD_FILE_HEADER_PATTERN (?h @ rest) i"
    using no [of i] prefix_occurs_at [OF ne, of i "?h @ rest"] by simp
  have "take 122 (fst (replace_loop (?h @ rest) path_segment 0 0 [])) = take 122 (?h @ rest)"
  proof (rule replace_loop_frame_first)
    fix pp
    assume a: "py_find (?h @ rest) MDMD_FILE_HEADER_PATTERN 0 = Some pp"
    from py_find_Some(3) [OF a] no [of pp] show "122 \<le> pp" by (cases "pp < 122") simp_all
  qed
  with len show "take 122 (fst (replace_loop (?h @ rest) path_segment 0 0 [])) = ?h" by simp
qed

lemma slice_take: "e \<le> n \<Longrightarrow> slice (take n xs) s e = slice xs s e"
  by (simp add: slice_def drop_take min_def)



section \<open>Properties of the path rewriter\<close>

text \<open>
  C10. When the entry count is positive, no occurrence of the 12-byte sub-header signature
  starts inside the 122 header bytes of the assembled buffer, and \<open>replace_internal_paths\<close>
  returns a buffer whose first 122 bytes are the header, whatever follows the header and
  whatever the target path. When the entry count is zero, the header itself starts with the
  signature (its file-count field is zero), so offset 0 is a patch site: the assembled buffer,
  at least 122 bytes long, is always long enough, and the default path field replaces header
  bytes \<open>0x36\<close> to \<open>0x44\<close>.
\<close>

theorem header_frame_under_path_rewriting:
  "(0 < fc \<and> build_header_dynamically fc mt = Inr (h, tm, dd)
      \<and> replace_internal_paths (h @ rest) target_path = Inr (new_content, n, w) \<longrightarrow>
        take 122 new_content = h
        \<and> (\<forall>i<122. \<not> occurs_at MDMD_FILE_HEADER_PATTERN (h @ rest) i))
   \<and> (build_header_dynamically 0 mt = Inr (h, tm, dd) \<longrightarrow>
        take 12 h = MDMD_FILE_HEADER_PATTERN
        \<and> occurs_at MDMD_FILE_HEADER_PATTERN (h @ rest) 0
        \<and> (\<exists>patched k v. replace_internal_paths (h @ rest) DEFAULT_TARGET_PATH = Inr (patched, k, v)
              \<and> take 122 patched = set_slice h 0x36 0x45 default_path_segment
              \<and> slice patched 0x36 0x45 = default_path_segment
              \<and> slice h 0x36 0x45
                  = [0x00, 0x20, 0x20, 0x20, 0x20, 0x20, 0x20, 0x20, 0x20, 0x20, 0x20, 0x20, 0x20, 0x20, 0x20]))
   \<and> assemble_and_save h index_blocks data
        = replace_internal_paths (h @ concat index_blocks @ data) DEFAULT_TARGET_PATH"
proof (intro conjI impI)
  assume a: "0 < fc \<and> build_header_dynamically fc mt = Inr (h, tm, dd)
      \<and> replace_internal_paths (h @ rest) target_path = Inr (new_content, n, w)"
  then have b: "build_header_dynamically fc mt = Inr (h, tm, dd)" and fc: "0 < fc" by simp_all
  from header_eval [OF b] have c: "int fc < 65536"
    and h: "h = header_layout (word_of_int (int fc)) (word_of_int (int fc div 256))
                   (word_of_int (int (fc * NAME_LEN))) (word_of_int (int (fc * NAME_LEN) div 256))
                   (word_of_int tm) (word_of_int (tm div 256))
                   (word_of_int dd) (word_of_int (dd div 256))"
    by blast+
  note nz = count_bytes_nonzero [OF fc c]
  from a have "\<exists>seg. replace_loop (h @ rest) seg 0 0 [] = (new_content, n, w)"
    by (auto simp: replace_internal_paths_def split: sum.splits)
  then obtain seg where "replace_loop (h @ rest) seg 0 0 [] = (new_content, n, w)" ..
  then have "new_content = fst (replace_loop (h @ rest) seg 0 0 [])" by simp
  then show "take 122 new_content = h"
    unfolding h using nonzero_header_loop(1) [OF nz] by simp
  show "\<forall>i<122. \<not> occurs_at MDMD_FILE_HEADER_PATTERN (h @ rest) i"
    unfolding h using nonzero_header_loop(2) [OF nz] by blast
next
  assume b: "build_header_dynamically 0 mt = Inr (h, tm, dd)"
  from header_eval [OF b]
  have h: "h = header_layout 0 0 0 0 (word_of_int tm) (word_of_int (tm div 256))
                   (word_of_int dd) (word_of_int (dd div 256))"
    by auto
  show "take 12 h = MDMD_FILE_HEADER_PATTERN"
    unfolding h by (simp add: header_layout_def MDMD_FILE_HEADER_PATTERN_def)
  have ne: "MDMD_FILE_HEADER_PATTERN \<noteq> []" by (simp add: MDMD_FILE_HEADER_PATTERN_def)
  show "occurs_at MDMD_FILE_HEADER_PATTERN (h @ rest) 0"
    unfolding h using zero_header_starts prefix_occurs_at [OF ne, of 0] by simp
  let ?r = "replace_loop (h @ rest) default_path_segment 0 0 []"
  have r: "replace_internal_paths (h @ rest) DEFAULT_TARGET_PATH = Inr (fst ?r, fst (snd ?r), snd (snd ?r))"
    by (simp add: replace_internal_paths_def default_segment)
  have t: "take 122 (fst ?r) = set_slice h 0x36 0x45 default_path_segment"
    unfolding h by (rule zero_header_loop)
  have "slice (fst ?r) 0x36 0x45 = slice (take 122 (fst ?r)) 0x36 0x45"
    by (simp add: slice_take)
  also have "\<dots> = slice (set_slice h 0x36 0x45 default_path_segment) 0x36 0x45"
    by (simp only: t)
  also have "\<dots> = default_path_segment"
    unfolding h by (rule zero_header_patched_facts)
  finally have s: "slice (fst ?r) 0x36 0x45 = default_path_segment" .
  have o: "slice h 0x36 0x45
             = [0x00, 0x20, 0x20, 0x20, 0x20, 0x20, 0x20, 0x20, 0x20, 0x20, 0x20, 0x20, 0x20, 0x20, 0x20]"
    unfolding h by (rule zero_header_patched_facts)
  from r t s o
  show "\<exists>patched k v. replace_internal_paths (h @ rest) DEFAULT_TARGET_PATH = Inr (patched, k, v)
              \<and> take 122 patched = set_slice h 0x36 0x45 default_path_segment
              \<and> slice patched 0x36 0x45 = default_path_segment
              \<and> slice h 0x36 0x45
                  = [0x00, 0x20, 0x20, 0x20, 0x20, 0x20, 0x20, 0x20, 0x20, 0x20, 0x20, 0x20, 0x20, 0x20, 0x20]"
    by blast
next
  show "assemble_and_save h index_blocks data
        = replace_internal_paths (h @ concat index_blocks @ data) DEFAULT_TARGET_PATH"
    by (simp add: assemble_and_save_def)
qed

theorem header_frame_under_path_rewriting_witness:
  "build_header_dynamically 1 ex_mtime = Inr (header_layout 1 0 0x11 0 0x05 0x98 0xCF 0x56, 38917, 22223)
   \<and> (\<exists>patched k v. replace_internal_paths (header_layout 1 0 0x11 0 0x05 0x98 0xCF 0x56 @ ex_exact_fit)
                        DEFAULT_TARGET_PATH = Inr (patched, k, v)
         \<and> take 122 patched = header_layout 1 0 0x11 0 0x05 0x98 0xCF 0x56)
   \<and> build_header_dynamically 0 ex_mtime = Inr (header_layout 0 0 0 0 0x05 0x98 0xCF 0x56, 38917, 22223)
   \<and> (\<exists>patched k v. replace_internal_paths (header_layout 0 0 0 0 0x05 0x98 0xCF 0x56 @ [])
                        DEFAULT_TARGET_PATH = Inr (patched, k, v)
         \<and> slice patched 0x36 0x45 = default_path_segment)"
proof -
  let ?h1 = "header_layout 1 0 0x11 0 0x05 0x98 0xCF 0x56"
  let ?h0 = "header_layout 0 0 0 0 0x05 0x98 0xCF 0x56"
  let ?r = "replace_loop (?h1 @ ex_exact_fit) default_path_segment 0 0 []"
  have b1: "build_header_dynamically 1 ex_mtime = Inr (?h1, 38917, 22223)" by code_simp
  have b0: "build_header_dynamically 0 ex_mtime = Inr (?h0, 38917, 22223)" by code_simp
  have r: "replace_internal_paths (?h1 @ ex_exact_fit) DEFAULT_TARGET_PATH
             = Inr (fst ?r, fst (snd ?r), snd (snd ?r))"
    by (simp add: replace_internal_paths_def default_segment)
  from header_frame_under_path_rewriting
         [where fc = 1 and mt = ex_mtime and h = ?h1 and tm = 38917 and dd = 22223
            and rest = ex_exact_fit and target_path = DEFAULT_TARGET_PATH
            and new_content = "fst ?r" and n = "fst (snd ?r)" and w = "snd (snd ?r)"]
       b1 r
  have "take 122 (fst ?r) = ?h1" by simp
  with r have c1: "\<exists>patched k v. replace_internal_paths (?h1 @ ex_exact_fit)
                        DEFAULT_TARGET_PATH = Inr (patched, k, v) \<and> take 122 patched = ?h1"
    by blast
  from header_frame_under_path_rewriting
         [where mt = ex_mtime and h = ?h0 and tm = 38917 and dd = 22223 and rest = "[]"] b0
  have c0: "\<exists>patched k v. replace_internal_paths (?h0 @ []) DEFAULT_TARGET_PATH = Inr (patched, k, v)
         \<and> slice patched 0x36 0x45 = default_path_segment"
    by blast
  from b1 c1 b0 c0 show ?thesis by blast
qed

text \<open>
  C4. The code at the boundary of the claim: in a buffer that ends exactly where the path
  field of an occurrence would end, the write \<open>data[path_start:path_end] = path_segment\<close>
  would stay inside the buffer, yet the guard \<open>path_end >= len(data)\<close> skips the
  occurrence with the warning "would exceed buffer" and nothing is replaced; with one more
  byte the field is written. The same happens when the buffer is the data of a whole file
  run through \<open>process_single_file\<close>.
\<close>

theorem exact_fit_patch_site_skipped:
  "occurs_at MDMD_FILE_HEADER_PATTERN ex_exact_fit 0
   \<and> path_segment_of DEFAULT_TARGET_PATH = Inr default_path_segment
   \<and> 0 + PATH_OFFSET_IN_HEADER + length default_path_segment = length ex_exact_fit
   \<and> length (set_slice ex_exact_fit 0x36 0x45 default_path_segment) = length ex_exact_fit
   \<and> replace_internal_paths ex_exact_fit DEFAULT_TARGET_PATH = Inr (ex_exact_fit, 0, [0])
   \<and> replace_internal_paths (ex_exact_fit @ [0x20]) DEFAULT_TARGET_PATH
        = Inr (take 0x36 ex_exact_fit @ default_path_segment @ [0x20], 1, [])
   \<and> process_single_file ex_exact_fit ex_mtime
        = Inr (header_layout 1 0 0x11 0 0x05 0x98 0xCF 0x56
                 @ (replicate 12 0x41 @ [0x42, 139, 0, 0, 0]) @ ex_exact_fit, 0, [139])"
  by (intro conjI; code_simp)

section \<open>Properties of the whole run\<close>



end
